theory Spec2Isabelle
  imports
    Main
    "HOL-Library.Word"
    "HOL-Library.AList"
    "HOL-Library.Sublist"
    "HOL-Library.List_Lexorder"
begin

section \<open>Command Dictionary: the grouping tree and its projection\<close>

text \<open>
  The development follows the hierarchical tree provider of the extension
  (the file with \<^verbatim>\<open>buildGroupTree\<close>, \<^verbatim>\<open>findGroup\<close> and \<^verbatim>\<open>parseGroupSegments\<close>).
  The repository also holds an earlier flat revision of the provider
  (\<^verbatim>\<open>src/extension.ts\<close>), which has one level of groups, no item identities
  and the same \<^verbatim>\<open>commandDictionary.insert\<close> command.
\<close>

subsection \<open>Strings\<close>

text \<open>
  A JavaScript string is a sequence of 16-bit code units. Equality of strings
  (the key comparison of \<^verbatim>\<open>Map\<close>, \<^verbatim>\<open>===\<close>) is equality of these sequences.
\<close>

type_synonym js_string = "16 word list"

definition str :: "string \<Rightarrow> js_string" where
  "str s = map (\<lambda>c. of_nat (of_char c)) s"

text \<open>
  \<^verbatim>\<open>String.prototype.trim\<close> removes leading and trailing code units that are
  WhiteSpace or LineTerminator in ECMAScript: TAB, LF, VT, FF, CR, SP, NBSP,
  U+1680, U+2000..U+200A, U+2028, U+2029, U+202F, U+205F, U+3000, U+FEFF.
\<close>

definition isWhiteSpace :: "16 word \<Rightarrow> bool" where
  "isWhiteSpace c \<longleftrightarrow>
     c = 0x09 \<or> c = 0x0A \<or> c = 0x0B \<or> c = 0x0C \<or> c = 0x0D \<or> c = 0x20 \<or> c = 0xA0 \<or>
     c = 0x1680 \<or> (0x2000 \<le> c \<and> c \<le> 0x200A) \<or> c = 0x2028 \<or> c = 0x2029 \<or>
     c = 0x202F \<or> c = 0x205F \<or> c = 0x3000 \<or> c = 0xFEFF"

definition trim :: "js_string \<Rightarrow> js_string" where
  "trim s = rev (dropWhile isWhiteSpace (rev (dropWhile isWhiteSpace s)))"

definition slash :: "16 word" where
  "slash = 0x2F"

text \<open>\<^verbatim>\<open>s.split('/')\<close>: the pieces between the separators; the empty string has one empty piece.\<close>

fun split_on :: "16 word \<Rightarrow> js_string \<Rightarrow> js_string list" where
  "split_on sep [] = [[]]"
| "split_on sep (c # cs) =
     (if c = sep then [] # split_on sep cs
      else (case split_on sep cs of
              [] \<Rightarrow> [[c]]
            | p # ps \<Rightarrow> (c # p) # ps))"

text \<open>\<^verbatim>\<open>parts.join('/')\<close>.\<close>

fun join :: "16 word \<Rightarrow> js_string list \<Rightarrow> js_string" where
  "join sep [] = []"
| "join sep [p] = p"
| "join sep (p # q # ps) = p @ sep # join sep (q # ps)"

subsection \<open>Records and tree items\<close>

text \<open>
  A command record at its declared type \<^verbatim>\<open>CommandConfig\<close>: the two optional
  properties are absent or strings.
\<close>

record CommandConfig =
  label :: js_string
  insertText :: js_string
  description :: "js_string option"
  group :: "js_string option"

datatype CommandGroupTree =
  CommandGroupTree
    (tree_label: js_string)
    (tree_segments: "js_string list")
    (subgroups: "(js_string \<times> CommandGroupTree) list")
    (commands: "CommandConfig list")

text \<open>
  The \<^verbatim>\<open>Map\<close> of subgroups is an association list in insertion order:
  \<^verbatim>\<open>get\<close> is \<^const>\<open>map_of\<close>, and \<^verbatim>\<open>set\<close> is \<^const>\<open>AList.update\<close>, which keeps the
  position of a key that is present and appends a new key.
\<close>

datatype TreeItem =
    CommandNode (cmd: CommandConfig)
  | GroupNode (labelText: js_string) (segments: "js_string list") (isUngrouped: bool)
  | OtherItem

definition UNGROUPED_LABEL :: js_string where
  "UNGROUPED_LABEL = str ''Ungrouped''"

definition UNGROUPED_ID :: js_string where
  "UNGROUPED_ID = str ''__commandDictionaryUngrouped__''"

text \<open>
  The \<^verbatim>\<open>id\<close> the constructor of \<^verbatim>\<open>GroupNode\<close> assigns:
  \<^verbatim>\<open>isUngrouped ? '__commandDictionaryUngrouped__' : segments.join('/') || labelText\<close>.
  The empty string is falsy, so an empty join gives the label.
\<close>

fun item_id :: "TreeItem \<Rightarrow> js_string option" where
  "item_id (GroupNode lbl segs ungrouped) =
     Some (if ungrouped then UNGROUPED_ID
           else (if join slash segs \<noteq> [] then join slash segs else lbl))"
| "item_id _ = None"

subsection \<open>Parsing a group path\<close>

definition parseGroupSegments :: "js_string option \<Rightarrow> js_string list" where
  "parseGroupSegments g =
     (case g of
        None \<Rightarrow> []
      | Some s \<Rightarrow>
          if s = [] then []
          else filter (\<lambda>part. length part > 0) (map trim (split_on slash s)))"

subsection \<open>Building the tree\<close>

text \<open>
  The inner loop of \<^verbatim>\<open>buildGroupTree\<close>: walk from \<open>node\<close> along the remaining
  segments, creating a node where a segment is new, and push the command at the end.
  \<open>currentPath\<close> is the path walked so far.
\<close>

fun walk :: "CommandConfig \<Rightarrow> js_string list \<Rightarrow> js_string list \<Rightarrow> CommandGroupTree \<Rightarrow> CommandGroupTree" where
  "walk c currentPath [] (CommandGroupTree l sg subs cmds) =
     CommandGroupTree l sg subs (cmds @ [c])"
| "walk c currentPath (segment # rest) (CommandGroupTree l sg subs cmds) =
     (let currentPath' = currentPath @ [segment];
          next = (case map_of subs segment of
                    None \<Rightarrow> CommandGroupTree segment currentPath' [] []
                  | Some n \<Rightarrow> n)
      in CommandGroupTree l sg (AList.update segment (walk c currentPath' rest next) subs) cmds)"

definition place :: "CommandGroupTree \<Rightarrow> CommandConfig \<Rightarrow> CommandGroupTree" where
  "place root c =
     (let pathSegments = parseGroupSegments (group c)
      in if length pathSegments = 0
         then CommandGroupTree (tree_label root) (tree_segments root) (subgroups root) (commands root @ [c])
         else walk c [] pathSegments root)"

definition buildGroupTree :: "CommandConfig list \<Rightarrow> CommandGroupTree" where
  "buildGroupTree items = foldl place (CommandGroupTree [] [] [] []) items"

fun findGroup :: "CommandGroupTree \<Rightarrow> js_string list \<Rightarrow> CommandGroupTree option" where
  "findGroup node [] = Some node"
| "findGroup node (segment # rest) =
     (case map_of (subgroups node) segment of
        None \<Rightarrow> None
      | Some n \<Rightarrow> findGroup n rest)"

text \<open>
  \<^verbatim>\<open>localeCompare(b, undefined, {sensitivity: 'base'})\<close> is the host's collation.
  It is taken as a parameter: a function \<open>key\<close> from labels to collation keys in a
  linear order, two labels comparing as their keys do. \<^verbatim>\<open>Array.prototype.sort\<close> is
  stable, as \<^const>\<open>sort_key\<close> is.
\<close>

definition createGroupNodes ::
    "(js_string \<Rightarrow> 'k::linorder) \<Rightarrow> (js_string \<times> CommandGroupTree) list \<Rightarrow> TreeItem list" where
  "createGroupNodes key groups =
     map (\<lambda>g. GroupNode (tree_label g) (tree_segments g) False)
       (sort_key (\<lambda>g. key (tree_label g)) (map snd groups))"

subsection \<open>Reading the configuration\<close>

text \<open>
  A value of one configuration layer, as \<^verbatim>\<open>inspect\<close> reports it: an array of
  records, or something that is not an array.
\<close>

datatype ConfigValue = ArrayValue "CommandConfig list" | NonArrayValue

record Inspected =
  workspaceFolderLanguageValue :: "ConfigValue option"
  workspaceLanguageValue :: "ConfigValue option"
  globalLanguageValue :: "ConfigValue option"
  workspaceFolderValue :: "ConfigValue option"
  workspaceValue :: "ConfigValue option"
  globalValue :: "ConfigValue option"

definition candidates :: "Inspected \<Rightarrow> ConfigValue option list" where
  "candidates inspected =
     [workspaceFolderLanguageValue inspected,
      workspaceLanguageValue inspected,
      globalLanguageValue inspected,
      workspaceFolderValue inspected,
      workspaceValue inspected,
      globalValue inspected]"

fun firstDefined :: "CommandConfig list \<Rightarrow> ConfigValue option list \<Rightarrow> CommandConfig list" where
  "firstDefined defaultCommands [] = defaultCommands"
| "firstDefined defaultCommands (None # rest) = firstDefined defaultCommands rest"
| "firstDefined defaultCommands (Some (ArrayValue v) # rest) = v"
| "firstDefined defaultCommands (Some NonArrayValue # rest) = defaultCommands"

definition getConfiguredCommands :: "CommandConfig list \<Rightarrow> Inspected option \<Rightarrow> CommandConfig list" where
  "getConfiguredCommands defaultCommands cfg =
     (case cfg of
        None \<Rightarrow> defaultCommands
      | Some inspected \<Rightarrow> firstDefined defaultCommands (candidates inspected))"

subsection \<open>The children query\<close>

definition getChildren ::
    "(js_string \<Rightarrow> 'k::linorder) \<Rightarrow> CommandConfig list \<Rightarrow> Inspected option \<Rightarrow>
     TreeItem option \<Rightarrow> TreeItem list" where
  "getChildren key defaultCommands cfg element =
     (let items = getConfiguredCommands defaultCommands cfg;
          tree = buildGroupTree items
      in case element of
           None \<Rightarrow>
             if length (subgroups tree) = 0 then map CommandNode (commands tree)
             else
               (let rootGroups = createGroupNodes key (subgroups tree)
                in if length (commands tree) \<noteq> 0
                   then GroupNode UNGROUPED_LABEL [] True # rootGroups
                   else rootGroups)
         | Some (GroupNode lbl segs ungrouped) \<Rightarrow>
             if ungrouped then map CommandNode (commands tree)
             else
               (case findGroup tree segs of
                  None \<Rightarrow> []
                | Some g \<Rightarrow>
                    createGroupNodes key (subgroups g) @ map CommandNode (commands g))
         | Some _ \<Rightarrow> [])"

subsection \<open>The insert command\<close>

text \<open>
  A position is a line and a character offset; a selection is a range of the
  document, empty when its two ends coincide (a bare cursor).
\<close>

record Position =
  line :: nat
  character :: nat

record Selection =
  start :: Position
  end_pos :: Position

definition isEmpty :: "Selection \<Rightarrow> bool" where
  "isEmpty sel \<longleftrightarrow> start sel = end_pos sel"

datatype EditOp = Replace Selection js_string | Insert Position js_string

record Editor =
  selections :: "Selection list"

text \<open>
  The part of the host the command touches: the active editor if there is one, the
  information notices shown so far, and the batches handed to \<^verbatim>\<open>editor.edit\<close>,
  one batch per call.
\<close>

record Window =
  activeTextEditor :: "Editor option"
  notices :: "js_string list"
  edits :: "EditOp list list"

definition NO_EDITOR_NOTICE :: js_string where
  "NO_EDITOR_NOTICE = str ''Open a text editor to insert the command.''"

fun editCallback :: "js_string \<Rightarrow> Selection list \<Rightarrow> EditOp list" where
  "editCallback text [] = []"
| "editCallback text (sel # rest) =
     (let insertAt = start sel
      in (if \<not> isEmpty sel then Replace sel text else Insert insertAt text)
         # editCallback text rest)"

definition insert_command :: "js_string \<Rightarrow> Window \<Rightarrow> Window" where
  "insert_command text w =
     (case activeTextEditor w of
        None \<Rightarrow> w\<lparr>notices := notices w @ [NO_EDITOR_NOTICE]\<rparr>
      | Some editor \<Rightarrow> w\<lparr>edits := edits w @ [editCallback text (selections editor)]\<rparr>)"

subsection \<open>Loading the default bundle\<close>

text \<open>
  A value \<^verbatim>\<open>JSON.parse\<close> returns. The type of numbers is left open: the loader
  never looks at one. The properties of a parsed object are a list of distinct names
  with their values.
\<close>

datatype 'n Json =
    JNull
  | JBool bool
  | JNumber 'n
  | JString js_string
  | JArray "'n Json list"
  | JObject "(js_string \<times> 'n Json) list"

text \<open>
  \<^verbatim>\<open>!value || typeof value !== 'object'\<close>: \<^verbatim>\<open>null\<close> is the one falsy value whose
  type is \<^verbatim>\<open>'object'\<close>; arrays and objects are truthy and of type \<^verbatim>\<open>'object'\<close>.
\<close>

fun notObject :: "'n Json \<Rightarrow> bool" where
  "notObject (JArray xs) = False"
| "notObject (JObject props) = False"
| "notObject _ = True"

text \<open>
  \<^verbatim>\<open>candidate.label\<close>: a property of a parsed object; a parsed array has only its
  indices and \<^verbatim>\<open>length\<close>, so the lookup of any other name is \<^verbatim>\<open>undefined\<close>.
\<close>

fun property :: "'n Json \<Rightarrow> js_string \<Rightarrow> 'n Json option" where
  "property (JObject props) name = map_of props name"
| "property _ name = None"

fun typeofString :: "'n Json option \<Rightarrow> bool" where
  "typeofString (Some (JString s)) = True"
| "typeofString _ = False"

definition isCommandConfig :: "'n Json \<Rightarrow> bool" where
  "isCommandConfig v \<longleftrightarrow>
     (if notObject v then False
      else typeofString (property v (str ''label'')) \<and>
           typeofString (property v (str ''insertText'')))"

text \<open>
  What the \<^verbatim>\<open>try\<close> block meets: \<^verbatim>\<open>readFileSync\<close> throws, \<^verbatim>\<open>JSON.parse\<close> throws, or
  a value is parsed.
\<close>

datatype 'n Bundle = ReadThrows | ParseThrows | Parsed "'n Json"

definition LOAD_FAILED :: js_string where
  "LOAD_FAILED = str ''commandDictionary: failed to load default commands''"

text \<open>The result is the lines written by \<^verbatim>\<open>console.error\<close> and the list returned.\<close>

definition loadDefaultCommands :: "'n Bundle \<Rightarrow> js_string list \<times> 'n Json list" where
  "loadDefaultCommands bundle =
     (case bundle of
        ReadThrows \<Rightarrow> ([LOAD_FAILED], [])
      | ParseThrows \<Rightarrow> ([LOAD_FAILED], [])
      | Parsed (JArray xs) \<Rightarrow> ([], filter isCommandConfig xs)
      | Parsed _ \<Rightarrow> ([], []))"

subsection \<open>Notions used in the statements\<close>

text \<open>The parsed group path of a record.\<close>

definition path_of :: "CommandConfig \<Rightarrow> js_string list" where
  "path_of c = parseGroupSegments (group c)"

text \<open>What is stored in a tree at a path: the commands and the child segments there.\<close>

definition cmds_at :: "CommandGroupTree \<Rightarrow> js_string list \<Rightarrow> CommandConfig list" where
  "cmds_at t q = (case findGroup t q of None \<Rightarrow> [] | Some n \<Rightarrow> commands n)"

definition keys_at :: "CommandGroupTree \<Rightarrow> js_string list \<Rightarrow> js_string list" where
  "keys_at t q = (case findGroup t q of None \<Rightarrow> [] | Some n \<Rightarrow> map fst (subgroups n))"

text \<open>
  Every node found at a path \<open>q\<close> below a node of path \<open>pre\<close> carries the
  segments \<open>pre @ q\<close> and the last segment as its label.
\<close>

definition named :: "js_string list \<Rightarrow> CommandGroupTree \<Rightarrow> bool" where
  "named pre t \<longleftrightarrow>
     (\<forall>q n. findGroup t q = Some n \<longrightarrow>
        tree_segments n = pre @ q \<and> (q \<noteq> [] \<longrightarrow> tree_label n = last q))"

text \<open>
  The segments that follow the path \<open>q\<close> in the records of a list, each once, in
  the order of first occurrence.
\<close>

definition child_segments :: "CommandConfig list \<Rightarrow> js_string list \<Rightarrow> js_string list" where
  "child_segments items q =
     foldl (\<lambda>acc c. if strict_prefix q (path_of c) \<and> path_of c ! length q \<notin> set acc
                     then acc @ [path_of c ! length q] else acc) [] items"

text \<open>The header of the group \<open>s\<close> below the path \<open>q\<close>.\<close>

definition header :: "js_string list \<Rightarrow> js_string \<Rightarrow> TreeItem" where
  "header q s = GroupNode s (q @ [s]) False"

text \<open>The headers from the root down to the group of path \<open>p\<close>.\<close>

definition chain :: "js_string list \<Rightarrow> TreeItem list" where
  "chain p = map (\<lambda>n. GroupNode (p ! n) (take (Suc n) p) False) [0..<length p]"

text \<open>
  The sequence of headers a user expands to see the leaf of a record: none in a flat
  list, the synthetic header for a root-level record beside groups, and the chain
  of its group path otherwise.
\<close>

definition route :: "CommandConfig list \<Rightarrow> CommandConfig \<Rightarrow> TreeItem list" where
  "route items r =
     (if path_of r = []
      then (if \<forall>c\<in>set items. path_of c = [] then [] else [GroupNode UNGROUPED_LABEL [] True])
      else chain (path_of r))"

text \<open>
  \<open>reaches key d cfg hs e\<close>: the item \<open>e\<close> is returned by the query on the last
  header of \<open>hs\<close>, each header of \<open>hs\<close> being returned by the query on the one
  before it, and the first by the root query.
\<close>

inductive reaches ::
    "(js_string \<Rightarrow> 'k::linorder) \<Rightarrow> CommandConfig list \<Rightarrow> Inspected option \<Rightarrow>
     TreeItem list \<Rightarrow> TreeItem \<Rightarrow> bool"
  for key d cfg where
    at_root: "e \<in> set (getChildren key d cfg None) \<Longrightarrow> reaches key d cfg [] e"
  | below: "reaches key d cfg hs h \<Longrightarrow> e \<in> set (getChildren key d cfg (Some h)) \<Longrightarrow>
            reaches key d cfg (hs @ [h]) e"

text \<open>The items a user can be shown.\<close>

definition displayable ::
    "(js_string \<Rightarrow> 'k::linorder) \<Rightarrow> CommandConfig list \<Rightarrow> Inspected option \<Rightarrow> TreeItem \<Rightarrow> bool" where
  "displayable key d cfg e \<longleftrightarrow> (\<exists>hs. reaches key d cfg hs e)"

subsection \<open>Sample data\<close>

text \<open>A collation for the examples: ASCII letters compare without case.\<close>

definition fold_case :: "16 word \<Rightarrow> 16 word" where
  "fold_case c = (if 0x41 \<le> c \<and> c \<le> 0x5A then c + 0x20 else c)"

definition ascii_key :: "js_string \<Rightarrow> js_string" where
  "ascii_key s = map fold_case s"

definition plain_cmd :: "string \<Rightarrow> CommandConfig" where
  "plain_cmd l = \<lparr>label = str l, insertText = str l, description = None, group = None\<rparr>"

definition grouped_cmd :: "string \<Rightarrow> string \<Rightarrow> CommandConfig" where
  "grouped_cmd l g = \<lparr>label = str l, insertText = str l, description = None, group = Some (str g)\<rparr>"

definition only_global :: "CommandConfig list \<Rightarrow> Inspected" where
  "only_global v =
     \<lparr>workspaceFolderLanguageValue = None, workspaceLanguageValue = None,
      globalLanguageValue = None, workspaceFolderValue = None, workspaceValue = None,
      globalValue = Some (ArrayValue v)\<rparr>"

definition workspace_and_global :: "ConfigValue option \<Rightarrow> ConfigValue option \<Rightarrow> Inspected" where
  "workspace_and_global w g =
     \<lparr>workspaceFolderLanguageValue = None, workspaceLanguageValue = None,
      globalLanguageValue = None, workspaceFolderValue = None, workspaceValue = w,
      globalValue = g\<rparr>"

section \<open>The tree that is built\<close>


lemma findGroup_case:
  "findGroup (CommandGroupTree l sg subs cmds) q =
     (case q of [] \<Rightarrow> Some (CommandGroupTree l sg subs cmds)
      | s # r \<Rightarrow> (case map_of subs s of None \<Rightarrow> None | Some n \<Rightarrow> findGroup n r))"
  by (cases q) auto

lemma findGroup_fresh: "findGroup (CommandGroupTree l sg [] []) q = (if q = [] then Some (CommandGroupTree l sg [] []) else None)"
  by (cases q) auto

lemma walk_other:
  "\<not> prefix q p \<Longrightarrow> findGroup (walk c cur p t) q = findGroup t q"
  by (induction c cur p t arbitrary: q rule: walk.induct)
     (auto simp: findGroup_case update_conv' Let_def findGroup_fresh split: list.splits option.splits)

lemma walk_defined:
  "findGroup (walk c cur p t) q \<noteq> None \<longleftrightarrow> findGroup t q \<noteq> None \<or> prefix q p"
  by (induction c cur p t arbitrary: q rule: walk.induct)
     (auto simp: findGroup_case update_conv' Let_def findGroup_fresh split: list.splits option.splits)

lemma walk_cmds:
  "cmds_at (walk c cur p t) q = (if q = p then cmds_at t q @ [c] else cmds_at t q)"
  unfolding cmds_at_def
  by (induction c cur p t arbitrary: q rule: walk.induct)
     (auto simp: findGroup_case update_conv' Let_def findGroup_fresh split: list.splits option.splits)

lemma walk_keys:
  "keys_at (walk c cur p t) q =
     (if strict_prefix q p \<and> p ! length q \<notin> set (keys_at t q)
      then keys_at t q @ [p ! length q] else keys_at t q)"
  unfolding keys_at_def
  by (induction c cur p t arbitrary: q rule: walk.induct)
     (auto simp: findGroup_case update_conv' update_keys Let_def findGroup_fresh split: list.splits option.splits)

lemma walk_root [simp]:
  "tree_label (walk c cur p t) = tree_label t" "tree_segments (walk c cur p t) = tree_segments t"
  by (cases t; cases p; simp add: Let_def)+

lemma named_child:
  assumes "named pre (CommandGroupTree l sg subs cmds)" "map_of subs s = Some n"
  shows "named (pre @ [s]) n" "tree_label n = s" "tree_segments n = pre @ [s]"
proof -
  have *: "findGroup (CommandGroupTree l sg subs cmds) (s # r) = findGroup n r" for r
    using assms(2) by simp
  show "named (pre @ [s]) n"
    unfolding named_def
  proof (intro allI impI)
    fix q m assume "findGroup n q = Some m"
    then have "findGroup (CommandGroupTree l sg subs cmds) (s # q) = Some m" using * by simp
    with assms(1) show "tree_segments m = (pre @ [s]) @ q \<and> (q \<noteq> [] \<longrightarrow> tree_label m = last q)"
      unfolding named_def by fastforce
  qed
  have "findGroup (CommandGroupTree l sg subs cmds) [s] = Some n" using * [of "[]"] by simp
  with assms(1) show "tree_label n = s" "tree_segments n = pre @ [s]"
    unfolding named_def by fastforce+
qed

lemma named_fresh: "named (pre @ [s]) (CommandGroupTree s (pre @ [s]) [] [])"
  by (auto simp: named_def findGroup_fresh)

lemma named_node:
  assumes "sg = pre"
    and "\<And>s n. map_of subs s = Some n \<Longrightarrow> named (pre @ [s]) n \<and> tree_label n = s \<and> tree_segments n = pre @ [s]"
  shows "named pre (CommandGroupTree l sg subs cmds)"
  unfolding named_def
proof (intro allI impI)
  fix q m assume f: "findGroup (CommandGroupTree l sg subs cmds) q = Some m"
  show "tree_segments m = pre @ q \<and> (q \<noteq> [] \<longrightarrow> tree_label m = last q)"
  proof (cases q)
    case Nil with f assms(1) show ?thesis by auto
  next
    case (Cons s r)
    with f obtain n where n: "map_of subs s = Some n" "findGroup n r = Some m"
      by (auto split: option.splits)
    from assms(2)[OF n(1)] have nm: "named (pre @ [s]) n" "tree_label n = s" "tree_segments n = pre @ [s]" by auto
    show ?thesis
    proof (cases r)
      case Nil with n(2) nm Cons show ?thesis by auto
    next
      case (Cons a b)
      with nm(1) n(2) have "tree_segments m = (pre @ [s]) @ r \<and> tree_label m = last r"
        unfolding named_def by blast
      with \<open>q = s # r\<close> Cons show ?thesis by auto
    qed
  qed
qed

lemma walk_named:
  "named cur t \<Longrightarrow> tree_segments t = cur \<Longrightarrow> named cur (walk c cur p t)"
proof (induction c cur p t rule: walk.induct)
  case (1 c currentPath l sg subs cmds)
  then show ?case by (auto simp: named_def findGroup_case split: list.splits)
next
  case (2 c currentPath segment rest l sg subs cmds)
  let ?cur' = "currentPath @ [segment]"
  let ?next = "case map_of subs segment of None \<Rightarrow> CommandGroupTree segment ?cur' [] [] | Some n \<Rightarrow> n"
  have nx: "named ?cur' ?next \<and> tree_label ?next = segment \<and> tree_segments ?next = ?cur'"
    using named_child[OF "2.prems"(1)] named_fresh by (auto split: option.splits)
  have IH: "named ?cur' (walk c ?cur' rest ?next)"
    using "2.IH"[OF refl refl] nx by simp
  show ?case
    unfolding walk.simps Let_def
  proof (rule named_node)
    show "sg = currentPath" using "2.prems"(2) by simp
  next
    fix s n assume "map_of (AList.update segment (walk c ?cur' rest ?next) subs) s = Some n"
    then have "(s = segment \<and> n = walk c ?cur' rest ?next) \<or> (s \<noteq> segment \<and> map_of subs s = Some n)"
      by (auto simp: update_conv' split: if_splits)
    then show "named (currentPath @ [s]) n \<and> tree_label n = s \<and> tree_segments n = currentPath @ [s]"
      using IH nx named_child[OF "2.prems"(1)] by auto
  qed
qed

lemma place_walk: "place t c = walk c [] (path_of c) t"
  by (cases t) (simp add: place_def path_of_def Let_def)

lemma build_snoc: "buildGroupTree (items @ [c]) = place (buildGroupTree items) c"
  by (simp add: buildGroupTree_def)

lemma build_cmds: "cmds_at (buildGroupTree items) q = filter (\<lambda>c. path_of c = q) items"
proof (induction items rule: rev_induct)
  case Nil
  show ?case by (simp add: buildGroupTree_def cmds_at_def findGroup_fresh)
next
  case (snoc c items)
  then show ?case by (auto simp: build_snoc place_walk walk_cmds)
qed

lemma build_defined:
  "findGroup (buildGroupTree items) q \<noteq> None \<longleftrightarrow> q = [] \<or> (\<exists>c\<in>set items. prefix q (path_of c))"
proof (induction items rule: rev_induct)
  case Nil
  show ?case by (simp add: buildGroupTree_def findGroup_fresh)
next
  case (snoc c items)
  show ?case
    unfolding build_snoc place_walk walk_defined snoc.IH by auto
qed

lemma build_keys: "keys_at (buildGroupTree items) q = child_segments items q"
proof (induction items rule: rev_induct)
  case Nil
  show ?case by (simp add: buildGroupTree_def keys_at_def findGroup_fresh child_segments_def)
next
  case (snoc c items)
  then show ?case
    by (simp add: build_snoc place_walk walk_keys child_segments_def)
qed

lemma child_segments_set:
  "set (child_segments items q) = {path_of c ! length q | c. c \<in> set items \<and> strict_prefix q (path_of c)}"
  by (induction items rule: rev_induct) (auto simp: child_segments_def)

lemma child_segments_distinct: "distinct (child_segments items q)"
  by (induction items rule: rev_induct) (auto simp: child_segments_def)

lemma build_named: "named [] (buildGroupTree items) \<and> tree_segments (buildGroupTree items) = []"
proof (induction items rule: rev_induct)
  case Nil
  show ?case by (simp add: buildGroupTree_def named_def findGroup_fresh)
next
  case (snoc c items)
  then show ?case by (simp add: build_snoc place_walk walk_named)
qed

lemma findGroup_append:
  "findGroup t (q @ r) = (case findGroup t q of None \<Rightarrow> None | Some n \<Rightarrow> findGroup n r)"
  by (induction q arbitrary: t) (auto split: option.splits)

lemma insort_key_map: "map g (insort_key (\<lambda>x. f (g x)) a xs) = insort_key f (g a) (map g xs)"
  by (induction xs) auto

lemma sort_key_map: "map g (sort_key (\<lambda>x. f (g x)) xs) = sort_key f (map g xs)"
  by (induction xs) (auto simp: insort_key_map)

lemma createGroupNodes_at:
  assumes nm: "named [] t" and f: "findGroup t q = Some g" and d: "distinct (keys_at t q)"
  shows "createGroupNodes key (subgroups g) = map (header q) (sort_key key (keys_at t q))"
proof -
  let ?ns = "map snd (subgroups g)"
  have dk: "distinct (map fst (subgroups g))" using d f by (simp add: keys_at_def)
  have child: "tree_label n = s \<and> tree_segments n = q @ [s]" if "(s, n) \<in> set (subgroups g)" for s n
  proof -
    have "map_of (subgroups g) s = Some n" using that dk by simp
    then have "findGroup t (q @ [s]) = Some n" using f by (simp add: findGroup_append)
    with nm show ?thesis unfolding named_def by fastforce
  qed
  have lab: "map tree_label ?ns = keys_at t q"
    using f child by (auto simp: keys_at_def)
  have "createGroupNodes key (subgroups g) =
          map (\<lambda>n. header q (tree_label n)) (sort_key (\<lambda>n. key (tree_label n)) ?ns)"
    unfolding createGroupNodes_def header_def using child by auto
  also have "\<dots> = map (header q) (map tree_label (sort_key (\<lambda>n. key (tree_label n)) ?ns))"
    by simp
  also have "\<dots> = map (header q) (sort_key key (keys_at t q))"
    by (simp only: sort_key_map lab)
  finally show ?thesis .
qed

lemma build_root:
  "commands (buildGroupTree items) = filter (\<lambda>c. path_of c = []) items"
  "map fst (subgroups (buildGroupTree items)) = child_segments items []"
  using build_cmds[of items "[]"] build_keys[of items "[]"]
  by (simp_all add: cmds_at_def keys_at_def)

lemma child_segments_root_empty:
  "child_segments items [] = [] \<longleftrightarrow> (\<forall>c\<in>set items. path_of c = [])"
proof -
  have "child_segments items [] = [] \<longleftrightarrow> set (child_segments items []) = {}" by simp
  also have "\<dots> \<longleftrightarrow> (\<forall>c\<in>set items. path_of c = [])"
    unfolding child_segments_set by (auto simp: strict_prefix_def)
  finally show ?thesis .
qed

lemma children_root:
  "getChildren key d cfg None =
     (let items = getConfiguredCommands d cfg in
      if \<forall>c\<in>set items. path_of c = [] then map CommandNode items
      else (if \<exists>c\<in>set items. path_of c = [] then [GroupNode UNGROUPED_LABEL [] True] else [])
           @ map (header []) (sort_key key (child_segments items [])))"
proof -
  let ?items = "getConfiguredCommands d cfg"
  let ?t = "buildGroupTree ?items"
  have s0: "length (subgroups ?t) = 0 \<longleftrightarrow> (\<forall>c\<in>set ?items. path_of c = [])"
    using child_segments_root_empty[of ?items] build_root(2)[of ?items] by (metis length_0_conv map_is_Nil_conv)
  have c0: "length (commands ?t) \<noteq> 0 \<longleftrightarrow> (\<exists>c\<in>set ?items. path_of c = [])"
    by (auto simp: build_root(1) filter_empty_conv)
  have flat: "(\<forall>c\<in>set ?items. path_of c = []) \<Longrightarrow> commands ?t = ?items"
    by (simp add: build_root(1))
  have cg: "createGroupNodes key (subgroups ?t) = map (header []) (sort_key key (child_segments ?items []))"
    using createGroupNodes_at[of ?t "[]" ?t key] build_named[of ?items] build_keys[of ?items "[]"]
      child_segments_distinct[of ?items "[]"] by simp
  show ?thesis
    unfolding getChildren_def Let_def option.case s0 c0 cg
    using flat by auto
qed

lemma children_ungrouped:
  "getChildren key d cfg (Some (GroupNode l q True)) =
     map CommandNode (filter (\<lambda>c. path_of c = []) (getConfiguredCommands d cfg))"
  by (simp add: getChildren_def Let_def build_root(1))

lemma children_group:
  "getChildren key d cfg (Some (GroupNode l q False)) =
     (let items = getConfiguredCommands d cfg in
      if q = [] \<or> (\<exists>c\<in>set items. prefix q (path_of c))
      then map (header q) (sort_key key (child_segments items q))
           @ map CommandNode (filter (\<lambda>c. path_of c = q) items)
      else [])"
proof -
  let ?items = "getConfiguredCommands d cfg"
  let ?t = "buildGroupTree ?items"
  show ?thesis
  proof (cases "findGroup ?t q")
    case None
    then have "\<not> (q = [] \<or> (\<exists>c\<in>set ?items. prefix q (path_of c)))"
      using build_defined[of ?items q] by simp
    with None show ?thesis by (simp add: getChildren_def Let_def)
  next
    case (Some g)
    then have ex: "q = [] \<or> (\<exists>c\<in>set ?items. prefix q (path_of c))"
      using build_defined[of ?items q] by simp
    have cg: "createGroupNodes key (subgroups g) = map (header q) (sort_key key (child_segments ?items q))"
      using createGroupNodes_at[OF _ Some, of key] build_named[of ?items] build_keys[of ?items q]
        child_segments_distinct[of ?items q] by simp
    have cm: "commands g = filter (\<lambda>c. path_of c = q) ?items"
      using build_cmds[of ?items q] Some by (simp add: cmds_at_def)
    show ?thesis using ex Some by (simp add: getChildren_def Let_def cg cm)
  qed
qed

lemma children_leaf: "getChildren key d cfg (Some (CommandNode c)) = []"
  "getChildren key d cfg (Some OtherItem) = []"
  by (simp_all add: getChildren_def Let_def)

lemma leaf_in_children:
  "CommandNode r \<in> set (getChildren key d cfg e) \<longleftrightarrow>
     r \<in> set (getConfiguredCommands d cfg) \<and>
     (case e of
        None \<Rightarrow> \<forall>c\<in>set (getConfiguredCommands d cfg). path_of c = []
      | Some (GroupNode l q u) \<Rightarrow> (if u then path_of r = [] else path_of r = q)
      | Some _ \<Rightarrow> False)"
proof (cases e)
  case None
  then show ?thesis by (auto simp: children_root Let_def header_def)
next
  case (Some a)
  then show ?thesis
    by (cases a) (auto simp: children_leaf children_ungrouped children_group Let_def header_def)
qed

lemma prefix_snoc_iff: "prefix (q @ [x]) p \<longleftrightarrow> strict_prefix q p \<and> p ! length q = x"
proof
  assume "prefix (q @ [x]) p"
  then obtain r where "p = q @ x # r" by (auto simp: prefix_def)
  then show "strict_prefix q p \<and> p ! length q = x" by (auto simp: strict_prefix_def)
next
  assume a: "strict_prefix q p \<and> p ! length q = x"
  then obtain r where "p = q @ r" "r \<noteq> []" by (auto simp: strict_prefix_def prefix_def)
  with a show "prefix (q @ [x]) p" by (cases r) (auto simp: nth_append)
qed

lemma header_set:
  "GroupNode l s False \<in> header q ` set (child_segments items q) \<longleftrightarrow>
     s \<noteq> [] \<and> l = last s \<and> butlast s = q \<and> (\<exists>c\<in>set items. prefix s (path_of c))"
proof
  assume "GroupNode l s False \<in> header q ` set (child_segments items q)"
  then obtain c where "c \<in> set items" "strict_prefix q (path_of c)" "l = path_of c ! length q" "s = q @ [l]"
    by (auto simp: child_segments_set header_def)
  then show "s \<noteq> [] \<and> l = last s \<and> butlast s = q \<and> (\<exists>c\<in>set items. prefix s (path_of c))"
    by (auto simp: prefix_snoc_iff)
next
  assume a: "s \<noteq> [] \<and> l = last s \<and> butlast s = q \<and> (\<exists>c\<in>set items. prefix s (path_of c))"
  then have s: "s = q @ [l]" by (metis append_butlast_last_id)
  from a obtain c where c: "c \<in> set items" "prefix s (path_of c)" by blast
  from c(2) have "prefix (q @ [l]) (path_of c)" by (subst (asm) s)
  then have "strict_prefix q (path_of c)" "path_of c ! length q = l"
    by (simp_all add: prefix_snoc_iff)
  with c(1) have "l \<in> set (child_segments items q)" unfolding child_segments_set by blast
  with s show "GroupNode l s False \<in> header q ` set (child_segments items q)"
    by (auto simp: header_def)
qed

lemma header_in_children:
  "GroupNode l s False \<in> set (getChildren key d cfg e) \<longleftrightarrow>
     s \<noteq> [] \<and> l = last s \<and> (\<exists>c\<in>set (getConfiguredCommands d cfg). prefix s (path_of c)) \<and>
     (case e of
        None \<Rightarrow> butlast s = []
      | Some (GroupNode l' q u) \<Rightarrow> \<not> u \<and> butlast s = q
      | Some _ \<Rightarrow> False)"
proof (cases e)
  case None
  show ?thesis
  proof (cases "\<forall>c\<in>set (getConfiguredCommands d cfg). path_of c = []")
    case True
    then have "\<not> (s \<noteq> [] \<and> (\<exists>c\<in>set (getConfiguredCommands d cfg). prefix s (path_of c)))" by auto
    with True None show ?thesis by (auto simp: children_root Let_def)
  next
    case False
    with None have "GroupNode l s False \<in> set (getChildren key d cfg e) \<longleftrightarrow>
        GroupNode l s False \<in> header [] ` set (child_segments (getConfiguredCommands d cfg) [])"
      by (auto simp: children_root Let_def)
    then show ?thesis using None by (auto simp: header_set)
  qed
next
  case (Some a)
  show ?thesis
  proof (cases a)
    case (CommandNode c)
    with Some show ?thesis by (simp add: children_leaf)
  next
    case OtherItem
    with Some show ?thesis by (simp add: children_leaf)
  next
    case (GroupNode l' q u)
    show ?thesis
    proof (cases u)
      case True
      with Some GroupNode show ?thesis by (auto simp: children_ungrouped)
    next
      case False
      let ?items = "getConfiguredCommands d cfg"
      have "GroupNode l s False \<in> set (getChildren key d cfg e) \<longleftrightarrow>
         (q = [] \<or> (\<exists>c\<in>set ?items. prefix q (path_of c))) \<and>
         GroupNode l s False \<in> header q ` set (child_segments ?items q)"
        using Some GroupNode False by (auto simp: children_group Let_def)
      also have "\<dots> \<longleftrightarrow> GroupNode l s False \<in> header q ` set (child_segments ?items q)"
        by (auto simp: child_segments_set intro: prefix_order.less_imp_le)
      finally show ?thesis using Some GroupNode False by (auto simp: header_set)
    qed
  qed
qed

section \<open>Evaluating the samples\<close>

lemma configured_only_global: "getConfiguredCommands d (Some (only_global v)) = v"
  by (simp add: getConfiguredCommands_def only_global_def candidates_def)

lemmas eval_defs = parseGroupSegments_def str_def slash_def trim_def isWhiteSpace_def
  plain_cmd_def grouped_cmd_def path_of_def

section \<open>The root query\<close>

text \<open>
  C3. When no record of the configured list has a non-empty parsed group, the tree
  has no group node, and the root query returns one leaf per record, in the order of
  the list, and nothing else.
\<close>

theorem flat_list_root:
  assumes "\<forall>c\<in>set (getConfiguredCommands d cfg). parseGroupSegments (group c) = []"
  shows "subgroups (buildGroupTree (getConfiguredCommands d cfg)) = [] \<and>
         getChildren key d cfg None = map CommandNode (getConfiguredCommands d cfg)"
proof -
  let ?items = "getConfiguredCommands d cfg"
  from assms have a: "\<forall>c\<in>set ?items. path_of c = []" by (simp add: path_of_def)
  then have "child_segments ?items [] = []" by (simp add: child_segments_root_empty)
  then have "subgroups (buildGroupTree ?items) = []" using build_root(2)[of ?items] by simp
  moreover have "getChildren key d cfg None = map CommandNode ?items"
    using a by (simp add: children_root Let_def)
  ultimately show ?thesis by simp
qed

theorem flat_list_root_witness:
  "parseGroupSegments (group (plain_cmd ''b'')) = [] \<and>
   parseGroupSegments (group (grouped_cmd ''a'' '' / '')) = [] \<and>
   getChildren ascii_key [] (Some (only_global [plain_cmd ''b'', grouped_cmd ''a'' '' / ''])) None =
     [CommandNode (plain_cmd ''b''), CommandNode (grouped_cmd ''a'' '' / '')]"
proof -
  have h: "\<forall>c\<in>set (getConfiguredCommands [] (Some (only_global [plain_cmd ''b'', grouped_cmd ''a'' '' / '']))).
      parseGroupSegments (group c) = []"
    by (simp add: configured_only_global eval_defs)
  have "getChildren ascii_key [] (Some (only_global [plain_cmd ''b'', grouped_cmd ''a'' '' / ''])) None =
     [CommandNode (plain_cmd ''b''), CommandNode (grouped_cmd ''a'' '' / '')]"
    using flat_list_root[OF h, of ascii_key] by (simp add: configured_only_global)
  then show ?thesis by (simp add: eval_defs)
qed

lemma strict_prefix_Nil_iff: "strict_prefix [] p \<longleftrightarrow> p \<noteq> []"
  by (auto simp: strict_prefix_def)

text \<open>
  C2, as the code has it. When at least one record has a group that parses to a
  non-empty path (a group string of slashes and white space alone parses to the
  empty path, and its record is root-level), the root query returns the
  synthetic header first exactly when some record is root-level, and then one header
  per first segment, in the order of the collation keys of their labels (segments with
  the same key stay in the order of their first occurrence).
\<close>

theorem root_headers_sorted:
  assumes "\<exists>c\<in>set (getConfiguredCommands d cfg). parseGroupSegments (group c) \<noteq> []"
  shows "getChildren key d cfg None =
           (if \<exists>c\<in>set (getConfiguredCommands d cfg). parseGroupSegments (group c) = []
            then [GroupNode UNGROUPED_LABEL [] True] else [])
           @ map (\<lambda>s. GroupNode s [s] False)
               (sort_key key (child_segments (getConfiguredCommands d cfg) [])) \<and>
         sorted (map key (sort_key key (child_segments (getConfiguredCommands d cfg) []))) \<and>
         distinct (child_segments (getConfiguredCommands d cfg) []) \<and>
         set (child_segments (getConfiguredCommands d cfg) []) =
           {hd (parseGroupSegments (group c)) | c.
              c \<in> set (getConfiguredCommands d cfg) \<and> parseGroupSegments (group c) \<noteq> []}"
proof -
  let ?items = "getConfiguredCommands d cfg"
  from assms have ne: "(\<forall>c\<in>set ?items. path_of c = []) = False" by (simp add: path_of_def)
  have "getChildren key d cfg None =
      (if \<exists>c\<in>set ?items. path_of c = [] then [GroupNode UNGROUPED_LABEL [] True] else [])
      @ map (header []) (sort_key key (child_segments ?items []))"
    by (simp only: children_root Let_def ne if_False)
  moreover have "header [] = (\<lambda>s. GroupNode s [s] False)" by (simp add: header_def fun_eq_iff)
  moreover have "set (child_segments ?items []) = {hd (path_of c) | c. c \<in> set ?items \<and> path_of c \<noteq> []}"
  proof -
    have nth0: "p \<noteq> [] \<Longrightarrow> p ! 0 = hd p" for p :: "js_string list"
      by (cases p) simp_all
    show ?thesis
      unfolding child_segments_set
      by (rule Collect_cong) (auto simp: strict_prefix_Nil_iff nth0 intro: nth0 nth0[symmetric])
  qed
  ultimately show ?thesis
    by (simp add: path_of_def child_segments_distinct)
qed

theorem root_headers_sorted_witness:
  "parseGroupSegments (group (grouped_cmd ''x'' ''banana'')) \<noteq> [] \<and>
   getChildren ascii_key []
     (Some (only_global [grouped_cmd ''x'' ''banana'', plain_cmd ''L'', grouped_cmd ''y'' ''Apple'',
                         grouped_cmd ''z'' ''apple/sub''])) None =
     [GroupNode UNGROUPED_LABEL [] True,
      GroupNode (str ''Apple'') [str ''Apple''] False,
      GroupNode (str ''apple'') [str ''apple''] False,
      GroupNode (str ''banana'') [str ''banana''] False]"
proof -
  let ?items = "[grouped_cmd ''x'' ''banana'', plain_cmd ''L'', grouped_cmd ''y'' ''Apple'',
                 grouped_cmd ''z'' ''apple/sub'']"
  have p: "parseGroupSegments (group (grouped_cmd ''x'' ''banana'')) \<noteq> []"
    by (simp add: eval_defs)
  then have h: "\<exists>c\<in>set (getConfiguredCommands [] (Some (only_global ?items))). parseGroupSegments (group c) \<noteq> []"
    by (simp add: configured_only_global)
  have cs: "child_segments ?items [] = [str ''banana'', str ''Apple'', str ''apple'']"
    by (simp add: child_segments_def eval_defs)
  have srt: "sort_key ascii_key [str ''banana'', str ''Apple'', str ''apple''] = [str ''Apple'', str ''apple'', str ''banana'']"
    by (simp add: ascii_key_def fold_case_def str_def)
  have r: "\<exists>c\<in>set ?items. parseGroupSegments (group c) = []"
    by (simp add: eval_defs)
  from root_headers_sorted[OF h, of ascii_key] p r show ?thesis
    by (simp only: configured_only_global cs srt if_True list.map append.simps simp_thms)
qed

text \<open>
  A single record whose group is the string \<open>/\<close>: the group is not empty, its parsed
  path is, and the root query returns the leaf alone, with no header.
\<close>

theorem root_headers_sorted_counterexample:
  "group (grouped_cmd ''a'' ''/'') = Some (str ''/'') \<and>
   str ''/'' \<noteq> [] \<and>
   parseGroupSegments (group (grouped_cmd ''a'' ''/'')) = [] \<and>
   getChildren ascii_key [] (Some (only_global [grouped_cmd ''a'' ''/''])) None =
     [CommandNode (grouped_cmd ''a'' ''/'')]"
proof -
  have p: "parseGroupSegments (group (grouped_cmd ''a'' ''/'')) = []"
    by (simp add: eval_defs)
  have "getChildren ascii_key [] (Some (only_global [grouped_cmd ''a'' ''/''])) None =
     [CommandNode (grouped_cmd ''a'' ''/'')]"
    by (simp add: getChildren_def configured_only_global buildGroupTree_def place_def Let_def p)
  with p show ?thesis by (simp add: grouped_cmd_def str_def)
qed

section \<open>Queries on a group header\<close>

text \<open>
  C4. For a group header (not the synthetic one) whose segments resolve to a node of
  the tree built from the current configuration, the query returns the headers of the
  node's subgroups in the order of the collation keys of their labels, followed by the
  node's own commands as leaves, in the order of the configured list. The commands of
  the node are the records whose parsed path is the node's path, and its subgroups are
  the segments that follow this path in some record.
\<close>

theorem group_children:
  assumes "findGroup (buildGroupTree (getConfiguredCommands d cfg)) q = Some g"
  shows "getChildren key d cfg (Some (GroupNode l q False)) =
           map (\<lambda>s. GroupNode s (q @ [s]) False) (sort_key key (map fst (subgroups g)))
           @ map CommandNode (commands g) \<and>
         sorted (map key (sort_key key (map fst (subgroups g)))) \<and>
         commands g = filter (\<lambda>c. parseGroupSegments (group c) = q) (getConfiguredCommands d cfg) \<and>
         distinct (map fst (subgroups g)) \<and>
         set (map fst (subgroups g)) =
           {parseGroupSegments (group c) ! length q | c.
              c \<in> set (getConfiguredCommands d cfg) \<and> strict_prefix q (parseGroupSegments (group c))}"
proof -
  let ?items = "getConfiguredCommands d cfg"
  have k: "map fst (subgroups g) = child_segments ?items q"
    using build_keys[of ?items q] assms by (simp add: keys_at_def)
  have c: "commands g = filter (\<lambda>c. path_of c = q) ?items"
    using build_cmds[of ?items q] assms by (simp add: cmds_at_def)
  have ex: "q = [] \<or> (\<exists>c\<in>set ?items. prefix q (path_of c))"
    using build_defined[of ?items q] assms by simp
  have "getChildren key d cfg (Some (GroupNode l q False)) =
          map (header q) (sort_key key (child_segments ?items q))
          @ map CommandNode (filter (\<lambda>c. path_of c = q) ?items)"
    using ex by (simp only: children_group Let_def if_True)
  moreover have "header q = (\<lambda>s. GroupNode s (q @ [s]) False)" by (simp add: header_def fun_eq_iff)
  ultimately show ?thesis
    using child_segments_set[of ?items q] child_segments_distinct[of ?items q]
    by (simp add: k c path_of_def)
qed

theorem group_children_witness:
  "findGroup (buildGroupTree (getConfiguredCommands []
      (Some (only_global [grouped_cmd ''a'' ''X'', grouped_cmd ''b'' ''X/Y'', grouped_cmd ''c'' ''X'']))))
      [str ''X''] =
     Some (CommandGroupTree (str ''X'') [str ''X'']
             [(str ''Y'', CommandGroupTree (str ''Y'') [str ''X'', str ''Y''] [] [grouped_cmd ''b'' ''X/Y''])]
             [grouped_cmd ''a'' ''X'', grouped_cmd ''c'' ''X'']) \<and>
   getChildren ascii_key []
     (Some (only_global [grouped_cmd ''a'' ''X'', grouped_cmd ''b'' ''X/Y'', grouped_cmd ''c'' ''X'']))
     (Some (GroupNode (str ''X'') [str ''X''] False)) =
     [GroupNode (str ''Y'') [str ''X'', str ''Y''] False,
      CommandNode (grouped_cmd ''a'' ''X''), CommandNode (grouped_cmd ''c'' ''X'')]"
proof -
  have h: "findGroup (buildGroupTree (getConfiguredCommands []
      (Some (only_global [grouped_cmd ''a'' ''X'', grouped_cmd ''b'' ''X/Y'', grouped_cmd ''c'' ''X'']))))
      [str ''X''] =
     Some (CommandGroupTree (str ''X'') [str ''X'']
             [(str ''Y'', CommandGroupTree (str ''Y'') [str ''X'', str ''Y''] [] [grouped_cmd ''b'' ''X/Y''])]
             [grouped_cmd ''a'' ''X'', grouped_cmd ''c'' ''X''])"
    by (simp add: configured_only_global buildGroupTree_def place_def Let_def eval_defs)
  show ?thesis
    using h group_children[OF h, of ascii_key "str ''X''"] by simp
qed

text \<open>
  C10. When the segments of a group header (not the synthetic one) do not resolve in
  the tree built from the current configuration, the query returns the empty list.
  The segments fail to resolve exactly when they are not empty and no record's
  parsed path starts with them.
\<close>

theorem unresolved_path_empty:
  assumes "findGroup (buildGroupTree (getConfiguredCommands d cfg)) q = None"
  shows "getChildren key d cfg (Some (GroupNode l q False)) = [] \<and>
         q \<noteq> [] \<and> \<not> (\<exists>c\<in>set (getConfiguredCommands d cfg). prefix q (parseGroupSegments (group c)))"
  using assms build_defined[of "getConfiguredCommands d cfg" q]
  by (simp add: getChildren_def Let_def path_of_def)

theorem unresolved_path_empty_witness:
  "findGroup (buildGroupTree (getConfiguredCommands [] (Some (only_global [grouped_cmd ''H'' ''Headers''])))) [str ''Gone''] = None \<and>
   getChildren ascii_key [] (Some (only_global [grouped_cmd ''H'' ''Headers'']))
     (Some (GroupNode (str ''Gone'') [str ''Gone''] False)) = []"
proof -
  have h: "findGroup (buildGroupTree (getConfiguredCommands [] (Some (only_global [grouped_cmd ''H'' ''Headers''])))) [str ''Gone''] = None"
    by (simp add: configured_only_global buildGroupTree_def place_def Let_def eval_defs)
  show ?thesis using h unresolved_path_empty[OF h, of ascii_key "str ''Gone''"] by simp
qed

section \<open>Reaching a record\<close>

lemma chain_snoc: "chain (q @ [x]) = chain q @ [GroupNode x (q @ [x]) False]"
  by (simp add: chain_def nth_append)

lemma chain_Nil [simp]: "chain [] = []"
  by (simp add: chain_def)

lemma chain_single: "chain [l] = [GroupNode l [l] False]"
  using chain_snoc[of "[]" l] by simp

lemma ungrouped_not_below: "GroupNode l s True \<notin> set (getChildren key d cfg (Some a))"
proof (cases a)
  case (GroupNode l' q u)
  then show ?thesis
    by (cases u) (auto simp: children_ungrouped children_group Let_def header_def)
qed (simp_all add: children_leaf)

lemma ungrouped_in_children:
  assumes "GroupNode l s True \<in> set (getChildren key d cfg e)"
  shows "e = None \<and> l = UNGROUPED_LABEL \<and> s = [] \<and>
     (\<forall>c\<in>set (getConfiguredCommands d cfg). path_of c = []) = False"
proof (cases e)
  case None
  with assms show ?thesis
    by (auto simp: children_root Let_def header_def split: if_splits)
next
  case (Some a)
  with assms ungrouped_not_below show ?thesis by blast
qed

lemma reaches_header:
  "reaches key d cfg hs h \<Longrightarrow> h = GroupNode l s False \<Longrightarrow> hs @ [h] = chain s \<and> s \<noteq> []"
proof (induction arbitrary: l s rule: reaches.induct)
  case (at_root e)
  then have "s \<noteq> []" "l = last s" "butlast s = []"
    by (auto simp: header_in_children)
  then have "s = [] @ [l]" by (metis append_butlast_last_id)
  then show ?case using at_root \<open>s \<noteq> []\<close> by (simp add: chain_single)
next
  case (below hs h e)
  from below.hyps(2) below.prems have m: "s \<noteq> []" "l = last s"
    "(case Some h of None \<Rightarrow> butlast s = [] | Some (GroupNode l' q u) \<Rightarrow> \<not> u \<and> butlast s = q | Some _ \<Rightarrow> False)"
    by (auto simp: header_in_children)
  from m(3) obtain l' where h: "h = GroupNode l' (butlast s) False"
    by (cases h) auto
  from below.IH[OF h] have "hs @ [h] = chain (butlast s)" by simp
  moreover have "s = butlast s @ [l]" using m(1,2) by simp
  ultimately have "(hs @ [h]) @ [GroupNode l s False] = chain s"
    using chain_snoc[of "butlast s" l] by simp
  with below.prems m(1) show ?case by simp
qed

lemma reaches_ungrouped:
  assumes "reaches key d cfg hs (GroupNode l s True)"
  shows "hs = [] \<and> l = UNGROUPED_LABEL \<and> s = [] \<and>
         (\<forall>c\<in>set (getConfiguredCommands d cfg). path_of c = []) = False"
  using assms
proof (cases rule: reaches.cases)
  case at_root
  then show ?thesis using ungrouped_in_children[of l s key d cfg None] by simp
next
  case (below hs' h)
  then show ?thesis using ungrouped_not_below[of l s key d cfg h] by simp
qed

lemma reaches_leaf_unique:
  assumes "reaches key d cfg hs (CommandNode r)"
  shows "hs = route (getConfiguredCommands d cfg) r"
  using assms
proof (cases rule: reaches.cases)
  case at_root
  then show ?thesis by (auto simp: leaf_in_children route_def)
next
  case (below hs' h)
  from below(3) obtain l q u where h: "h = GroupNode l q u"
    by (cases h) (auto simp: leaf_in_children)
  show ?thesis
  proof (cases u)
    case True
    with below h have "path_of r = []" by (auto simp: leaf_in_children)
    moreover from below(2) h True have "hs' = [] \<and> l = UNGROUPED_LABEL \<and> q = [] \<and>
        (\<forall>c\<in>set (getConfiguredCommands d cfg). path_of c = []) = False"
      using reaches_ungrouped[of key d cfg hs' l q] by simp
    ultimately show ?thesis using below(1) h True by (simp only: route_def if_True if_False) simp
  next
    case False
    with below h have p: "path_of r = q" by (auto simp: leaf_in_children)
    from reaches_header[OF below(2)] h False have "hs' @ [h] = chain q" "q \<noteq> []" by auto
    with p below(1) show ?thesis by (simp add: route_def)
  qed
qed

lemma reaches_prefix:
  assumes "r \<in> set (getConfiguredCommands d cfg)"
  shows "s \<noteq> [] \<Longrightarrow> prefix s (path_of r) \<Longrightarrow>
         reaches key d cfg (chain (butlast s)) (GroupNode (last s) s False)"
proof (induction s rule: rev_induct)
  case Nil
  then show ?case by simp
next
  case (snoc x q)
  have mem: "GroupNode x (q @ [x]) False \<in> set (getChildren key d cfg
       (if q = [] then None else Some (GroupNode (last q) q False)))"
    using snoc.prems assms by (auto simp: header_in_children)
  show ?case
  proof (cases "q = []")
    case True
    with mem show ?thesis by (auto intro: reaches.at_root)
  next
    case False
    have "prefix q (path_of r)" using snoc.prems(2) by (metis append_prefixD)
    from snoc.IH[OF False this] have "reaches key d cfg (chain (butlast q)) (GroupNode (last q) q False)" .
    from reaches.below[OF this] mem False
    have "reaches key d cfg (chain (butlast q) @ [GroupNode (last q) q False]) (GroupNode x (q @ [x]) False)"
      by simp
    moreover have "chain (butlast q) @ [GroupNode (last q) q False] = chain q"
      using chain_snoc[of "butlast q" "last q"] False by simp
    ultimately show ?thesis by simp
  qed
qed

lemma reaches_leaf:
  assumes "r \<in> set (getConfiguredCommands d cfg)"
  shows "reaches key d cfg (route (getConfiguredCommands d cfg) r) (CommandNode r)"
proof (cases "path_of r = []")
  case True
  show ?thesis
  proof (cases "\<forall>c\<in>set (getConfiguredCommands d cfg). path_of c = []")
    case all: True
    with assms have "CommandNode r \<in> set (getChildren key d cfg None)"
      by (simp add: leaf_in_children)
    then show ?thesis using True all by (auto simp: route_def intro: reaches.at_root)
  next
    case some: False
    then have f: "(\<forall>c\<in>set (getConfiguredCommands d cfg). path_of c = []) = False" by simp
    have "\<exists>c\<in>set (getConfiguredCommands d cfg). path_of c = []" using assms True by blast
    then have "GroupNode UNGROUPED_LABEL [] True \<in> set (getChildren key d cfg None)"
      by (simp only: children_root Let_def f if_False if_True) simp
    then have "reaches key d cfg [] (GroupNode UNGROUPED_LABEL [] True)" by (rule reaches.at_root)
    moreover have "CommandNode r \<in> set (getChildren key d cfg (Some (GroupNode UNGROUPED_LABEL [] True)))"
      using assms True by (simp add: leaf_in_children)
    ultimately have "reaches key d cfg ([] @ [GroupNode UNGROUPED_LABEL [] True]) (CommandNode r)"
      by (rule reaches.below)
    then show ?thesis using True by (simp only: route_def f if_True if_False) simp
  qed
next
  case False
  let ?p = "path_of r"
  from reaches_prefix[OF assms False, of key] 
  have "reaches key d cfg (chain (butlast ?p)) (GroupNode (last ?p) ?p False)" by simp
  moreover have "CommandNode r \<in> set (getChildren key d cfg (Some (GroupNode (last ?p) ?p False)))"
    using assms by (simp add: leaf_in_children)
  ultimately have "reaches key d cfg (chain (butlast ?p) @ [GroupNode (last ?p) ?p False]) (CommandNode r)"
    by (rule reaches.below)
  moreover have "chain (butlast ?p) @ [GroupNode (last ?p) ?p False] = chain ?p"
    using chain_snoc[of "butlast ?p" "last ?p"] False by simp
  ultimately show ?thesis using False by (simp add: route_def)
qed

lemma chain_three: "chain [a, b, c] = [GroupNode a [a] False, GroupNode b [a, b] False, GroupNode c [a, b, c] False]"
  using chain_snoc[of "[a, b]" c] chain_snoc[of "[a]" b] chain_single[of a] by simp

text \<open>
  C1. The leaf of every configured record is reached along its route: for a record
  whose group parses to the segments \<open>[a, b, c]\<close> the root query returns the header
  of \<open>a\<close>, the query on it the header of \<open>a/b\<close>, the query on that the header of
  \<open>a/b/c\<close>, and the query on the last returns the leaf. No other sequence of queries
  returns the leaf.
\<close>

theorem round_trip:
  assumes "r \<in> set (getConfiguredCommands d cfg)"
  shows "reaches key d cfg (route (getConfiguredCommands d cfg) r) (CommandNode r) \<and>
         (\<forall>hs. reaches key d cfg hs (CommandNode r) \<longrightarrow> hs = route (getConfiguredCommands d cfg) r) \<and>
         (parseGroupSegments (group r) = [a, b, c] \<longrightarrow>
            route (getConfiguredCommands d cfg) r =
              [GroupNode a [a] False, GroupNode b [a, b] False, GroupNode c [a, b, c] False])"
proof (intro conjI allI impI)
  show "reaches key d cfg (route (getConfiguredCommands d cfg) r) (CommandNode r)"
    using assms by (rule reaches_leaf)
next
  fix hs assume "reaches key d cfg hs (CommandNode r)"
  then show "hs = route (getConfiguredCommands d cfg) r" by (rule reaches_leaf_unique)
next
  assume "parseGroupSegments (group r) = [a, b, c]"
  then show "route (getConfiguredCommands d cfg) r =
      [GroupNode a [a] False, GroupNode b [a, b] False, GroupNode c [a, b, c] False]"
    by (simp add: route_def path_of_def chain_three)
qed

theorem round_trip_witness:
  "grouped_cmd ''x'' ''A/B/C'' \<in> set (getConfiguredCommands []
       (Some (only_global [grouped_cmd ''x'' ''A/B/C'', plain_cmd ''L'']))) \<and>
   parseGroupSegments (group (grouped_cmd ''x'' ''A/B/C'')) = [str ''A'', str ''B'', str ''C''] \<and>
   reaches ascii_key [] (Some (only_global [grouped_cmd ''x'' ''A/B/C'', plain_cmd ''L'']))
     [GroupNode (str ''A'') [str ''A''] False,
      GroupNode (str ''B'') [str ''A'', str ''B''] False,
      GroupNode (str ''C'') [str ''A'', str ''B'', str ''C''] False]
     (CommandNode (grouped_cmd ''x'' ''A/B/C''))"
proof -
  have h: "grouped_cmd ''x'' ''A/B/C'' \<in> set (getConfiguredCommands []
       (Some (only_global [grouped_cmd ''x'' ''A/B/C'', plain_cmd ''L''])))"
    by (simp add: configured_only_global)
  have p: "parseGroupSegments (group (grouped_cmd ''x'' ''A/B/C'')) = [str ''A'', str ''B'', str ''C'']"
    by (simp add: eval_defs)
  note rt = round_trip[OF h, of ascii_key "str ''A''" "str ''B''" "str ''C''"]
  from rt p have eq: "route (getConfiguredCommands []
       (Some (only_global [grouped_cmd ''x'' ''A/B/C'', plain_cmd ''L'']))) (grouped_cmd ''x'' ''A/B/C'') =
     [GroupNode (str ''A'') [str ''A''] False,
      GroupNode (str ''B'') [str ''A'', str ''B''] False,
      GroupNode (str ''C'') [str ''A'', str ''B'', str ''C''] False]"
    by blast
  from rt have "reaches ascii_key [] (Some (only_global [grouped_cmd ''x'' ''A/B/C'', plain_cmd ''L'']))
     (route (getConfiguredCommands []
       (Some (only_global [grouped_cmd ''x'' ''A/B/C'', plain_cmd ''L'']))) (grouped_cmd ''x'' ''A/B/C''))
     (CommandNode (grouped_cmd ''x'' ''A/B/C''))"
    by (rule conjunct1)
  then show ?thesis unfolding eq using h p by (intro conjI)
qed

section \<open>Splitting, joining and trimming\<close>

lemma split_on_nosep: "sep \<notin> set p \<Longrightarrow> split_on sep p = [p]"
  by (induction p) auto

lemma split_on_append: "sep \<notin> set p \<Longrightarrow> split_on sep (p @ sep # r) = p # split_on sep r"
  by (induction p) auto

lemma split_join:
  "ps \<noteq> [] \<Longrightarrow> \<forall>p\<in>set ps. sep \<notin> set p \<Longrightarrow> split_on sep (join sep ps) = ps"
  by (induction sep ps rule: join.induct) (auto simp: split_on_nosep split_on_append)

lemma split_pieces: "p \<in> set (split_on sep s) \<Longrightarrow> sep \<notin> set p"
  by (induction s arbitrary: p) (auto split: if_splits list.splits)

lemma trim_set: "x \<in> set (trim p) \<Longrightarrow> x \<in> set p"
proof -
  assume "x \<in> set (trim p)"
  then have "x \<in> set (dropWhile isWhiteSpace (rev (dropWhile isWhiteSpace p)))"
    by (simp add: trim_def)
  then have "x \<in> set (rev (dropWhile isWhiteSpace p))" by (rule set_dropWhileD)
  then have "x \<in> set (dropWhile isWhiteSpace p)" by simp
  then show "x \<in> set p" by (rule set_dropWhileD)
qed

lemma parse_segments_ok:
  assumes "s \<in> set (parseGroupSegments g)"
  shows "s \<noteq> [] \<and> slash \<notin> set s"
proof -
  from assms obtain raw p where "p \<in> set (split_on slash raw)" "s = trim p" "s \<noteq> []"
    by (auto simp: parseGroupSegments_def split: option.splits if_splits)
  then show ?thesis using split_pieces[of p slash raw] trim_set[of slash p] by auto
qed

lemma join_Nil_iff: "join sep ps = [] \<longleftrightarrow> (\<forall>p\<in>set ps. p = []) \<and> length ps \<le> 1"
  by (induction sep ps rule: join.induct) auto

lemma parse_join:
  assumes "\<forall>p\<in>set ps. slash \<notin> set p"
  shows "parseGroupSegments (Some (join slash ps)) = filter (\<lambda>p. p \<noteq> []) (map trim ps)"
proof (cases "join slash ps = []")
  case True
  then have "\<forall>p\<in>set ps. p = []" by (simp add: join_Nil_iff)
  then have "filter (\<lambda>p. p \<noteq> []) (map trim ps) = []"
    by (auto simp: filter_empty_conv trim_def)
  with True show ?thesis by (simp add: parseGroupSegments_def)
next
  case False
  then have "ps \<noteq> []" by auto
  with assms have "split_on slash (join slash ps) = ps" by (simp add: split_join)
  with False show ?thesis by (simp add: parseGroupSegments_def)
qed

lemma join_inject:
  assumes "ps \<noteq> []" "qs \<noteq> []" "\<forall>p\<in>set ps. sep \<notin> set p" "\<forall>p\<in>set qs. sep \<notin> set p"
    and "join sep ps = join sep qs"
  shows "ps = qs"
proof -
  have "ps = split_on sep (join sep ps)" by (rule split_join[OF assms(1) assms(3), symmetric])
  also have "\<dots> = split_on sep (join sep qs)" by (simp only: assms(5))
  also have "\<dots> = qs" by (rule split_join[OF assms(2) assms(4)])
  finally show ?thesis .
qed

lemma join_nonempty: "ps \<noteq> [] \<Longrightarrow> \<forall>p\<in>set ps. p \<noteq> [] \<Longrightarrow> join sep ps \<noteq> []"
  by (cases ps) (auto simp: join_Nil_iff)

lemma prefix_segments_ok:
  assumes "prefix s (path_of c)" "x \<in> set s"
  shows "x \<noteq> [] \<and> slash \<notin> set x"
proof -
  from assms have "x \<in> set (parseGroupSegments (group c))"
    by (auto simp: path_of_def dest: set_mono_prefix)
  then show ?thesis by (rule parse_segments_ok)
qed

lemma sentinel_no_slash: "slash \<notin> set UNGROUPED_ID"
  by (simp add: UNGROUPED_ID_def str_def slash_def)

lemma label_not_sentinel: "UNGROUPED_LABEL \<noteq> UNGROUPED_ID"
  by (simp add: UNGROUPED_ID_def UNGROUPED_LABEL_def str_def)

section \<open>Group strings that parse alike\<close>

lemma reaches_leaf_iff:
  "r \<in> set (getConfiguredCommands d cfg) \<Longrightarrow>
     reaches key d cfg hs (CommandNode r) \<longleftrightarrow> hs = route (getConfiguredCommands d cfg) r"
  using reaches_leaf reaches_leaf_unique by blast

lemma placed_at_path:
  assumes "r \<in> set items"
  shows "\<exists>g. findGroup (buildGroupTree items) (path_of r) = Some g \<and> r \<in> set (commands g)"
proof -
  have "findGroup (buildGroupTree items) (path_of r) \<noteq> None"
    using assms build_defined[of items "path_of r"] by blast
  then obtain g where g: "findGroup (buildGroupTree items) (path_of r) = Some g" by auto
  then have "commands g = filter (\<lambda>c. path_of c = path_of r) items"
    using build_cmds[of items "path_of r"] by (simp add: cmds_at_def)
  with assms g show ?thesis by simp
qed

lemma chain_two: "chain [a, b] = [GroupNode a [a] False, GroupNode b [a, b] False]"
  using chain_snoc[of "[a]" b] chain_single[of a] by simp

text \<open>
  C5. A group string is split at the slashes, each piece is trimmed and the empty
  pieces are dropped. So two records whose group strings have the same non-empty
  trimmed pieces, as \<open>A//B/\<close> and \<open>A/B\<close> do, have the same parsed path and are
  stored in the commands of the same tree node. Both leaves are reached, along the
  same sequence of headers, and no sequence of queries returns one leaf and not the
  other; when the path is \<open>[a, b]\<close> the sequence is the header of \<open>a\<close>, then the
  header of \<open>a/b\<close>, and the query on the latter returns both leaves.
\<close>

theorem path_collapsing:
  assumes "\<forall>p\<in>set ps. slash \<notin> set p" and "\<forall>p\<in>set qs. slash \<notin> set p"
    and "filter (\<lambda>p. p \<noteq> []) (map trim ps) = filter (\<lambda>p. p \<noteq> []) (map trim qs)"
    and "r1 \<in> set (getConfiguredCommands d cfg)" and "r2 \<in> set (getConfiguredCommands d cfg)"
    and "group r1 = Some (join slash ps)" and "group r2 = Some (join slash qs)"
  shows "parseGroupSegments (group r1) = filter (\<lambda>p. p \<noteq> []) (map trim ps) \<and>
         parseGroupSegments (group r2) = parseGroupSegments (group r1) \<and>
         (\<exists>g. findGroup (buildGroupTree (getConfiguredCommands d cfg)) (parseGroupSegments (group r1)) = Some g \<and>
              r1 \<in> set (commands g) \<and> r2 \<in> set (commands g)) \<and>
         reaches key d cfg (route (getConfiguredCommands d cfg) r1) (CommandNode r1) \<and>
         reaches key d cfg (route (getConfiguredCommands d cfg) r1) (CommandNode r2) \<and>
         (\<forall>hs. reaches key d cfg hs (CommandNode r1) \<longleftrightarrow> reaches key d cfg hs (CommandNode r2)) \<and>
         (parseGroupSegments (group r1) = [a, b] \<longrightarrow>
            route (getConfiguredCommands d cfg) r1 = [GroupNode a [a] False, GroupNode b [a, b] False] \<and>
            CommandNode r1 \<in> set (getChildren key d cfg (Some (GroupNode b [a, b] False))) \<and>
            CommandNode r2 \<in> set (getChildren key d cfg (Some (GroupNode b [a, b] False)))) \<and>
         parseGroupSegments (Some (str ''A//B/'')) = parseGroupSegments (Some (str ''A/B''))"
proof -
  let ?items = "getConfiguredCommands d cfg"
  have p1: "parseGroupSegments (group r1) = filter (\<lambda>p. p \<noteq> []) (map trim ps)"
    using assms(1,6) by (simp add: parse_join)
  have p2: "parseGroupSegments (group r2) = parseGroupSegments (group r1)"
    using assms(2,3,7) p1 by (simp add: parse_join)
  then have pp: "path_of r2 = path_of r1" by (simp add: path_of_def)
  obtain g where g: "findGroup (buildGroupTree ?items) (path_of r1) = Some g" "r1 \<in> set (commands g)"
    using placed_at_path[OF assms(4)] by blast
  obtain g' where g': "findGroup (buildGroupTree ?items) (path_of r2) = Some g'" "r2 \<in> set (commands g')"
    using placed_at_path[OF assms(5)] by blast
  from g g' pp have "g' = g" by simp
  with g g' have node: "\<exists>g. findGroup (buildGroupTree ?items) (parseGroupSegments (group r1)) = Some g \<and>
              r1 \<in> set (commands g) \<and> r2 \<in> set (commands g)"
    by (auto simp: path_of_def)
  have rr: "route ?items r2 = route ?items r1" using pp by (simp add: route_def)
  have q1: "reaches key d cfg (route ?items r1) (CommandNode r1)"
    using assms(4) by (rule reaches_leaf)
  have "reaches key d cfg (route ?items r2) (CommandNode r2)"
    using assms(5) by (rule reaches_leaf)
  then have q2: "reaches key d cfg (route ?items r1) (CommandNode r2)" by (simp only: rr)
  have q: "\<forall>hs. reaches key d cfg hs (CommandNode r1) \<longleftrightarrow> reaches key d cfg hs (CommandNode r2)"
    using reaches_leaf_iff[OF assms(4), of key] reaches_leaf_iff[OF assms(5), of key] rr by simp
  have two: "route ?items r1 = [GroupNode a [a] False, GroupNode b [a, b] False] \<and>
            CommandNode r1 \<in> set (getChildren key d cfg (Some (GroupNode b [a, b] False))) \<and>
            CommandNode r2 \<in> set (getChildren key d cfg (Some (GroupNode b [a, b] False)))"
    if ab: "parseGroupSegments (group r1) = [a, b]"
  proof -
    from ab have "path_of r1 = [a, b]" by (simp add: path_of_def)
    with pp assms(4,5) show ?thesis
      by (simp add: route_def chain_two leaf_in_children)
  qed
  have ex: "parseGroupSegments (Some (str ''A//B/'')) = parseGroupSegments (Some (str ''A/B''))"
    by (simp add: parseGroupSegments_def str_def slash_def trim_def isWhiteSpace_def)
  from p1 p2 node q1 q2 q two ex show ?thesis by blast
qed

theorem path_collapsing_witness:
  "parseGroupSegments (group (grouped_cmd ''x'' ''A//B/'')) = [str ''A'', str ''B''] \<and>
   parseGroupSegments (group (grouped_cmd ''x'' ''A/B'')) = [str ''A'', str ''B''] \<and>
   parseGroupSegments (group (grouped_cmd ''y'' '' A / /B '')) = [str ''A'', str ''B''] \<and>
   reaches ascii_key []
     (Some (only_global [grouped_cmd ''x'' ''A//B/'', grouped_cmd ''y'' '' A / /B '', grouped_cmd ''x'' ''A/B'']))
     [GroupNode (str ''A'') [str ''A''] False, GroupNode (str ''B'') [str ''A'', str ''B''] False]
     (CommandNode (grouped_cmd ''x'' ''A//B/'')) \<and>
   reaches ascii_key []
     (Some (only_global [grouped_cmd ''x'' ''A//B/'', grouped_cmd ''y'' '' A / /B '', grouped_cmd ''x'' ''A/B'']))
     [GroupNode (str ''A'') [str ''A''] False, GroupNode (str ''B'') [str ''A'', str ''B''] False]
     (CommandNode (grouped_cmd ''x'' ''A/B'')) \<and>
   reaches ascii_key []
     (Some (only_global [grouped_cmd ''x'' ''A//B/'', grouped_cmd ''y'' '' A / /B '', grouped_cmd ''x'' ''A/B'']))
     [GroupNode (str ''A'') [str ''A''] False, GroupNode (str ''B'') [str ''A'', str ''B''] False]
     (CommandNode (grouped_cmd ''y'' '' A / /B '')) \<and>
   CommandNode (grouped_cmd ''x'' ''A//B/'') \<in> set (getChildren ascii_key []
     (Some (only_global [grouped_cmd ''x'' ''A//B/'', grouped_cmd ''y'' '' A / /B '', grouped_cmd ''x'' ''A/B'']))
     (Some (GroupNode (str ''B'') [str ''A'', str ''B''] False))) \<and>
   CommandNode (grouped_cmd ''x'' ''A/B'') \<in> set (getChildren ascii_key []
     (Some (only_global [grouped_cmd ''x'' ''A//B/'', grouped_cmd ''y'' '' A / /B '', grouped_cmd ''x'' ''A/B'']))
     (Some (GroupNode (str ''B'') [str ''A'', str ''B''] False))) \<and>
   CommandNode (grouped_cmd ''y'' '' A / /B '') \<in> set (getChildren ascii_key []
     (Some (only_global [grouped_cmd ''x'' ''A//B/'', grouped_cmd ''y'' '' A / /B '', grouped_cmd ''x'' ''A/B'']))
     (Some (GroupNode (str ''B'') [str ''A'', str ''B''] False)))"
proof -
  let ?r1 = "grouped_cmd ''x'' ''A//B/''"
  let ?r2 = "grouped_cmd ''x'' ''A/B''"
  let ?r3 = "grouped_cmd ''y'' '' A / /B ''"
  let ?cfg = "Some (only_global [?r1, ?r3, ?r2])"
  let ?ps1 = "[str ''A'', [], str ''B'', []]"
  let ?ps2 = "[str ''A'', str ''B'']"
  let ?ps3 = "[str '' A '', str '' '', str ''B '']"
  have j1: "join slash ?ps1 = str ''A//B/''" by (simp add: str_def slash_def)
  have j2: "join slash ?ps2 = str ''A/B''" by (simp add: str_def slash_def)
  have j3: "join slash ?ps3 = str '' A / /B ''" by (simp add: str_def slash_def)
  have s1: "\<forall>p\<in>set ?ps1. slash \<notin> set p" by (simp add: str_def slash_def)
  have s2: "\<forall>p\<in>set ?ps2. slash \<notin> set p" by (simp add: str_def slash_def)
  have s3: "\<forall>p\<in>set ?ps3. slash \<notin> set p" by (simp add: str_def slash_def)
  have t1: "filter (\<lambda>p. p \<noteq> []) (map trim ?ps1) = [str ''A'', str ''B'']"
    by (simp add: str_def trim_def isWhiteSpace_def)
  have t2: "filter (\<lambda>p. p \<noteq> []) (map trim ?ps2) = [str ''A'', str ''B'']"
    by (simp add: str_def trim_def isWhiteSpace_def)
  have t3: "filter (\<lambda>p. p \<noteq> []) (map trim ?ps3) = [str ''A'', str ''B'']"
    by (simp add: str_def trim_def isWhiteSpace_def)
  have m1: "?r1 \<in> set (getConfiguredCommands [] ?cfg)" by (simp add: configured_only_global)
  have m2: "?r2 \<in> set (getConfiguredCommands [] ?cfg)" by (simp add: configured_only_global)
  have m3: "?r3 \<in> set (getConfiguredCommands [] ?cfg)" by (simp add: configured_only_global)
  have g1: "group ?r1 = Some (join slash ?ps1)" by (simp only: j1) (simp add: grouped_cmd_def)
  have g2: "group ?r2 = Some (join slash ?ps2)" by (simp only: j2) (simp add: grouped_cmd_def)
  have g3: "group ?r3 = Some (join slash ?ps3)" by (simp only: j3) (simp add: grouped_cmd_def)
  have t12: "filter (\<lambda>p. p \<noteq> []) (map trim ?ps1) = filter (\<lambda>p. p \<noteq> []) (map trim ?ps2)"
    by (simp only: t1 t2)
  have t32: "filter (\<lambda>p. p \<noteq> []) (map trim ?ps3) = filter (\<lambda>p. p \<noteq> []) (map trim ?ps2)"
    by (simp only: t3 t2)
  note a = path_collapsing[OF s1 s2 t12 m1 m2 g1 g2,
      of ascii_key "str ''A''" "str ''B''"]
  note b = path_collapsing[OF s3 s2 t32 m3 m2 g3 g2,
      of ascii_key "str ''A''" "str ''B''"]
  from a have e1: "parseGroupSegments (group ?r1) = [str ''A'', str ''B'']"
    by (simp only: t1)
  from a e1 have e2: "parseGroupSegments (group ?r2) = [str ''A'', str ''B'']"
    by simp
  from b have e3: "parseGroupSegments (group ?r3) = [str ''A'', str ''B'']"
    by (simp only: t3)
  from a e1 have ra: "route (getConfiguredCommands [] ?cfg) ?r1 =
      [GroupNode (str ''A'') [str ''A''] False, GroupNode (str ''B'') [str ''A'', str ''B''] False]"
    "CommandNode ?r1 \<in> set (getChildren ascii_key [] ?cfg (Some (GroupNode (str ''B'') [str ''A'', str ''B''] False)))"
    "CommandNode ?r2 \<in> set (getChildren ascii_key [] ?cfg (Some (GroupNode (str ''B'') [str ''A'', str ''B''] False)))"
    by blast+
  from b e3 have rb: "route (getConfiguredCommands [] ?cfg) ?r3 =
      [GroupNode (str ''A'') [str ''A''] False, GroupNode (str ''B'') [str ''A'', str ''B''] False]"
    "CommandNode ?r3 \<in> set (getChildren ascii_key [] ?cfg (Some (GroupNode (str ''B'') [str ''A'', str ''B''] False)))"
    by blast+
  from a have "reaches ascii_key [] ?cfg (route (getConfiguredCommands [] ?cfg) ?r1) (CommandNode ?r1)"
    "reaches ascii_key [] ?cfg (route (getConfiguredCommands [] ?cfg) ?r1) (CommandNode ?r2)"
    by blast+
  then have q1: "reaches ascii_key [] ?cfg
      [GroupNode (str ''A'') [str ''A''] False, GroupNode (str ''B'') [str ''A'', str ''B''] False] (CommandNode ?r1)"
    and q2: "reaches ascii_key [] ?cfg
      [GroupNode (str ''A'') [str ''A''] False, GroupNode (str ''B'') [str ''A'', str ''B''] False] (CommandNode ?r2)"
    unfolding ra(1) .
  from b have "reaches ascii_key [] ?cfg (route (getConfiguredCommands [] ?cfg) ?r3) (CommandNode ?r3)"
    by blast
  then have q3: "reaches ascii_key [] ?cfg
      [GroupNode (str ''A'') [str ''A''] False, GroupNode (str ''B'') [str ''A'', str ''B''] False] (CommandNode ?r3)"
    unfolding rb(1) .
  from e1 e2 e3 q1 q2 q3 ra(2,3) rb(2) show ?thesis by (intro conjI)
qed

section \<open>Identities of group headers\<close>

lemma displayable_header:
  assumes "displayable key d cfg (GroupNode l s False)"
  shows "s \<noteq> [] \<and> l = last s \<and> (\<forall>x\<in>set s. x \<noteq> [] \<and> slash \<notin> set x)"
proof -
  from assms obtain hs where "reaches key d cfg hs (GroupNode l s False)"
    by (auto simp: displayable_def)
  then obtain e where "GroupNode l s False \<in> set (getChildren key d cfg e)"
    by (cases rule: reaches.cases) auto
  then have "s \<noteq> []" "l = last s" "\<exists>c\<in>set (getConfiguredCommands d cfg). prefix s (path_of c)"
    by (simp_all add: header_in_children)
  then show ?thesis using prefix_segments_ok by blast
qed

lemma displayable_ungrouped:
  assumes "displayable key d cfg (GroupNode l s True)"
  shows "l = UNGROUPED_LABEL \<and> s = []"
proof -
  from assms obtain hs where "reaches key d cfg hs (GroupNode l s True)"
    by (auto simp: displayable_def)
  then show ?thesis using reaches_ungrouped[of key d cfg hs l s] by simp
qed

lemma real_header_id:
  assumes "s \<noteq> []" "\<forall>x\<in>set s. x \<noteq> [] \<and> slash \<notin> set x"
  shows "item_id (GroupNode l s False) = Some (join slash s)"
  using assms join_nonempty[of s slash] by simp

lemma join_is_sentinel:
  assumes "s \<noteq> []" "\<forall>x\<in>set s. x \<noteq> [] \<and> slash \<notin> set x" "join slash s = UNGROUPED_ID"
  shows "s = [UNGROUPED_ID]"
proof -
  have "join slash [UNGROUPED_ID] = join slash s" using assms(3) by simp
  then show ?thesis
    using join_inject[of s "[UNGROUPED_ID]" slash] assms(1,2) sentinel_no_slash by auto
qed

text \<open>
  The identities of the displayable headers. A displayable group header that is not synthetic has the
  identity of its segments joined with a slash, and the synthetic header has the fixed
  identity \<open>__commandDictionaryUngrouped__\<close>. Two displayable group headers with the
  same identity are the same item, unless one is the synthetic header and the other
  the root-level group whose only segment is that fixed identity itself. The label
  \<open>Ungrouped\<close> is not the fixed identity, so a group named \<open>Ungrouped\<close> does not collide.
\<close>

theorem header_identities:
  assumes "displayable key d cfg (GroupNode l1 s1 u1)"
    and "displayable key d cfg (GroupNode l2 s2 u2)"
  shows "item_id (GroupNode l1 s1 u1) = Some (if u1 then UNGROUPED_ID else join slash s1) \<and>
         (item_id (GroupNode l1 s1 u1) = item_id (GroupNode l2 s2 u2) \<longrightarrow>
            GroupNode l1 s1 u1 = GroupNode l2 s2 u2 \<or>
            (u1 \<and> \<not> u2 \<and> s2 = [UNGROUPED_ID]) \<or> (u2 \<and> \<not> u1 \<and> s1 = [UNGROUPED_ID])) \<and>
         UNGROUPED_LABEL \<noteq> UNGROUPED_ID"
proof -
  have ok: "s \<noteq> [] \<and> l = last s \<and> (\<forall>x\<in>set s. x \<noteq> [] \<and> slash \<notin> set x)"
    if "displayable key d cfg (GroupNode l s False)" for l s
    using that by (rule displayable_header)
  have un: "l = UNGROUPED_LABEL \<and> s = []" if "displayable key d cfg (GroupNode l s True)" for l s
    using that by (rule displayable_ungrouped)
  have id1: "item_id (GroupNode l1 s1 u1) = Some (if u1 then UNGROUPED_ID else join slash s1)"
  proof (cases u1)
    case True then show ?thesis by simp
  next
    case False
    with assms(1) have "displayable key d cfg (GroupNode l1 s1 False)" by simp
    from ok[OF this] have "s1 \<noteq> []" "\<forall>x\<in>set s1. x \<noteq> [] \<and> slash \<notin> set x" by simp_all
    from real_header_id[OF this] False show ?thesis by simp
  qed
  have id2: "item_id (GroupNode l2 s2 u2) = Some (if u2 then UNGROUPED_ID else join slash s2)"
  proof (cases u2)
    case True then show ?thesis by simp
  next
    case False
    with assms(2) have "displayable key d cfg (GroupNode l2 s2 False)" by simp
    from ok[OF this] have "s2 \<noteq> []" "\<forall>x\<in>set s2. x \<noteq> [] \<and> slash \<notin> set x" by simp_all
    from real_header_id[OF this] False show ?thesis by simp
  qed
  have inj: "GroupNode l1 s1 u1 = GroupNode l2 s2 u2 \<or>
            (u1 \<and> \<not> u2 \<and> s2 = [UNGROUPED_ID]) \<or> (u2 \<and> \<not> u1 \<and> s1 = [UNGROUPED_ID])"
    if eq: "item_id (GroupNode l1 s1 u1) = item_id (GroupNode l2 s2 u2)"
  proof (cases u1; cases u2)
    assume "u1" "u2"
    with assms un[of l1 s1] un[of l2 s2] show ?thesis by simp
  next
    assume u: "u1" "\<not> u2"
    with eq id1 id2 have "join slash s2 = UNGROUPED_ID" by simp
    with u assms(2) ok[of l2 s2] have "s2 = [UNGROUPED_ID]" by (simp add: join_is_sentinel)
    with u show ?thesis by simp
  next
    assume u: "\<not> u1" "u2"
    with eq id1 id2 have "join slash s1 = UNGROUPED_ID" by simp
    with u assms(1) ok[of l1 s1] have "s1 = [UNGROUPED_ID]" by (simp add: join_is_sentinel)
    with u show ?thesis by simp
  next
    assume u: "\<not> u1" "\<not> u2"
    with eq id1 id2 have j: "join slash s1 = join slash s2" by simp
    from u assms ok[of l1 s1] ok[of l2 s2]
    have o: "s1 \<noteq> []" "s2 \<noteq> []" "l1 = last s1" "l2 = last s2"
      "\<forall>p\<in>set s1. slash \<notin> set p" "\<forall>p\<in>set s2. slash \<notin> set p" by auto
    from join_inject[OF o(1,2,5,6) j] have "s1 = s2" .
    with o u show ?thesis by simp
  qed
  from id1 inj label_not_sentinel show ?thesis by blast
qed

theorem header_identities_witness:
  "displayable ascii_key [] (Some (only_global [grouped_cmd ''x'' ''Ungrouped'', plain_cmd ''L'']))
     (GroupNode UNGROUPED_LABEL [] True) \<and>
   displayable ascii_key [] (Some (only_global [grouped_cmd ''x'' ''Ungrouped'', plain_cmd ''L'']))
     (GroupNode UNGROUPED_LABEL [UNGROUPED_LABEL] False) \<and>
   item_id (GroupNode UNGROUPED_LABEL [] True) = Some UNGROUPED_ID \<and>
   item_id (GroupNode UNGROUPED_LABEL [UNGROUPED_LABEL] False) = Some UNGROUPED_LABEL \<and>
   item_id (GroupNode UNGROUPED_LABEL [] True) \<noteq> item_id (GroupNode UNGROUPED_LABEL [UNGROUPED_LABEL] False)"
proof -
  let ?cfg = "Some (only_global [grouped_cmd ''x'' ''Ungrouped'', plain_cmd ''L''])"
  have p: "parseGroupSegments (Some (str ''Ungrouped'')) = [UNGROUPED_LABEL]"
    by (simp add: parseGroupSegments_def UNGROUPED_LABEL_def str_def slash_def trim_def isWhiteSpace_def)
  have pn: "parseGroupSegments None = []"
    by (simp add: parseGroupSegments_def)
  have g: "getChildren ascii_key [] ?cfg None =
     [GroupNode UNGROUPED_LABEL [] True, GroupNode UNGROUPED_LABEL [UNGROUPED_LABEL] False]"
    by (simp add: getChildren_def configured_only_global buildGroupTree_def place_def Let_def
        grouped_cmd_def plain_cmd_def p pn createGroupNodes_def)
  have d1: "displayable ascii_key [] ?cfg (GroupNode UNGROUPED_LABEL [] True)"
    unfolding displayable_def by (rule exI[of _ "[]"], rule reaches.at_root) (simp add: g)
  have d2: "displayable ascii_key [] ?cfg (GroupNode UNGROUPED_LABEL [UNGROUPED_LABEL] False)"
    unfolding displayable_def by (rule exI[of _ "[]"], rule reaches.at_root) (simp add: g)
  note hi = header_identities[OF d1 d2]
  from hi[THEN conjunct1] have i1: "item_id (GroupNode UNGROUPED_LABEL [] True) = Some UNGROUPED_ID"
    by (simp only: if_True)
  from hi have ne: "UNGROUPED_LABEL \<noteq> UNGROUPED_ID" by simp
  from hi ne have i2: "item_id (GroupNode UNGROUPED_LABEL [] True) \<noteq>
      item_id (GroupNode UNGROUPED_LABEL [UNGROUPED_LABEL] False)"
    by auto
  from header_identities[OF d2 d2, THEN conjunct1]
  have i3: "item_id (GroupNode UNGROUPED_LABEL [UNGROUPED_LABEL] False) = Some UNGROUPED_LABEL"
    by (simp only: if_False join.simps)
  from d1 d2 i1 i3 i2 show ?thesis by (intro conjI)
qed

text \<open>
  C6. The claim is that no two distinct displayable group headers share an identity
  and that the identity of the synthetic header differs from every real group path.
  It fails for a root-level group named \<open>__commandDictionaryUngrouped__\<close> beside a
  root-level record: the root query returns two different headers, the synthetic one
  and the header of that group, and both have the identity
  \<open>__commandDictionaryUngrouped__\<close>.
\<close>

theorem sentinel_group_shares_identity:
  "getChildren ascii_key []
     (Some (only_global [grouped_cmd ''x'' ''__commandDictionaryUngrouped__'', plain_cmd ''L''])) None =
     [GroupNode UNGROUPED_LABEL [] True, GroupNode UNGROUPED_ID [UNGROUPED_ID] False] \<and>
   GroupNode UNGROUPED_LABEL [] True \<noteq> GroupNode UNGROUPED_ID [UNGROUPED_ID] False \<and>
   item_id (GroupNode UNGROUPED_LABEL [] True) = item_id (GroupNode UNGROUPED_ID [UNGROUPED_ID] False)"
proof -
  have p: "parseGroupSegments (Some (str ''__commandDictionaryUngrouped__'')) = [UNGROUPED_ID]"
    by (simp add: parseGroupSegments_def UNGROUPED_ID_def str_def slash_def trim_def isWhiteSpace_def)
  have pn: "parseGroupSegments None = []"
    by (simp add: parseGroupSegments_def)
  have g: "getChildren ascii_key []
     (Some (only_global [grouped_cmd ''x'' ''__commandDictionaryUngrouped__'', plain_cmd ''L''])) None =
     [GroupNode UNGROUPED_LABEL [] True, GroupNode UNGROUPED_ID [UNGROUPED_ID] False]"
    by (simp add: getChildren_def configured_only_global buildGroupTree_def place_def Let_def
        grouped_cmd_def plain_cmd_def p pn createGroupNodes_def)
  have i: "item_id (GroupNode UNGROUPED_LABEL [] True) = item_id (GroupNode UNGROUPED_ID [UNGROUPED_ID] False)"
    by (simp add: UNGROUPED_ID_def str_def)
  from g i show ?thesis by simp
qed

section \<open>The configured list\<close>

lemma firstDefined_skip:
  "\<forall>x\<in>set pre. x = None \<Longrightarrow> firstDefined dflt (pre @ rest) = firstDefined dflt rest"
  by (induction pre) auto

lemma getChildren_same_items:
  "getConfiguredCommands d cfg = getConfiguredCommands d' cfg' \<Longrightarrow>
     getChildren key d cfg e = getChildren key d' cfg' e"
  by (simp add: getChildren_def)

text \<open>
  C7, as the code has it. The list every query works on is the value of the most
  specific layer that has a value, when this value is an array (an empty array is a
  value); the layers after it are not looked at, so the query answers as if this
  array were the only configured value. The default list is used when no layer has a
  value, when \<^verbatim>\<open>inspect\<close> gives nothing, and when the most specific value is not
  an array.
\<close>

theorem configured_commands_source:
  "getConfiguredCommands dflt None = dflt \<and>
   ((\<forall>x\<in>set (candidates ins). x = None) \<longrightarrow> getConfiguredCommands dflt (Some ins) = dflt) \<and>
   (candidates ins = pre @ Some (ArrayValue v) # post \<and> (\<forall>x\<in>set pre. x = None) \<longrightarrow>
      getConfiguredCommands dflt (Some ins) = v \<and>
      getChildren key dflt (Some ins) e = getChildren key [] (Some (only_global v)) e) \<and>
   (candidates ins = pre @ Some NonArrayValue # post \<and> (\<forall>x\<in>set pre. x = None) \<longrightarrow>
      getConfiguredCommands dflt (Some ins) = dflt)"
proof (intro conjI impI)
  show "getConfiguredCommands dflt None = dflt" by (simp add: getConfiguredCommands_def)
next
  assume "\<forall>x\<in>set (candidates ins). x = None"
  then have "firstDefined dflt (candidates ins @ []) = firstDefined dflt []"
    by (rule firstDefined_skip)
  then show "getConfiguredCommands dflt (Some ins) = dflt" by (simp add: getConfiguredCommands_def)
next
  assume a: "candidates ins = pre @ Some (ArrayValue v) # post \<and> (\<forall>x\<in>set pre. x = None)"
  then have "firstDefined dflt (candidates ins) = firstDefined dflt (Some (ArrayValue v) # post)"
    by (simp add: firstDefined_skip)
  then show v: "getConfiguredCommands dflt (Some ins) = v" by (simp add: getConfiguredCommands_def)
  show "getChildren key dflt (Some ins) e = getChildren key [] (Some (only_global v)) e"
    by (rule getChildren_same_items) (simp add: v configured_only_global)
next
  assume a: "candidates ins = pre @ Some NonArrayValue # post \<and> (\<forall>x\<in>set pre. x = None)"
  then have "firstDefined dflt (candidates ins) = firstDefined dflt (Some NonArrayValue # post)"
    by (simp add: firstDefined_skip)
  then show "getConfiguredCommands dflt (Some ins) = dflt" by (simp add: getConfiguredCommands_def)
qed

theorem configured_commands_source_witness:
  "getConfiguredCommands [plain_cmd ''d'']
     (Some (workspace_and_global (Some (ArrayValue [])) (Some (ArrayValue [plain_cmd ''g''])))) = [] \<and>
   getConfiguredCommands [plain_cmd ''d'']
     (Some (workspace_and_global (Some (ArrayValue [plain_cmd ''w''])) (Some (ArrayValue [plain_cmd ''g''])))) =
     [plain_cmd ''w''] \<and>
   getConfiguredCommands [plain_cmd ''d''] (Some (workspace_and_global None None)) = [plain_cmd ''d''] \<and>
   getConfiguredCommands [plain_cmd ''d''] (Some (workspace_and_global (Some NonArrayValue) None)) =
     [plain_cmd ''d'']"
proof -
  have c: "candidates (workspace_and_global (Some x) g) = [None, None, None, None] @ Some x # [g]" for x g
    by (simp add: candidates_def workspace_and_global_def)
  have n: "\<forall>x\<in>set [None, None, None, None :: ConfigValue option]. x = None" by simp
  have a: "getConfiguredCommands [plain_cmd ''d'']
     (Some (workspace_and_global (Some (ArrayValue v)) (Some (ArrayValue [plain_cmd ''g''])))) = v" for v
    using configured_commands_source[of "[plain_cmd ''d'']"
        "workspace_and_global (Some (ArrayValue v)) (Some (ArrayValue [plain_cmd ''g'']))"
        "[None, None, None, None]" v "[Some (ArrayValue [plain_cmd ''g''])]" ascii_key None]
      c[of "ArrayValue v" "Some (ArrayValue [plain_cmd ''g''])"] n
    by blast
  have e: "\<forall>x\<in>set (candidates (workspace_and_global None None)). x = None"
    by (simp add: candidates_def workspace_and_global_def)
  have b: "getConfiguredCommands [plain_cmd ''d''] (Some (workspace_and_global None None)) = [plain_cmd ''d'']"
    using configured_commands_source[of "[plain_cmd ''d'']" "workspace_and_global None None"
        "[]" "[]" "[]" ascii_key None] e
    by blast
  have d: "getConfiguredCommands [plain_cmd ''d''] (Some (workspace_and_global (Some NonArrayValue) None)) =
     [plain_cmd ''d'']"
    using configured_commands_source[of "[plain_cmd ''d'']" "workspace_and_global (Some NonArrayValue) None"
        "[None, None, None, None]" "[]" "[None]" ascii_key None]
      c[of NonArrayValue None] n
    by blast
  from a[of "[]"] a[of "[plain_cmd ''w'']"] b d show ?thesis by (intro conjI)
qed

text \<open>
  Two layers have a value, the more specific one is not an array: the default list
  is used.
\<close>

theorem configured_commands_source_counterexample:
  "workspaceValue (workspace_and_global (Some NonArrayValue) (Some (ArrayValue [plain_cmd ''g'']))) =
     Some NonArrayValue \<and>
   globalValue (workspace_and_global (Some NonArrayValue) (Some (ArrayValue [plain_cmd ''g'']))) =
     Some (ArrayValue [plain_cmd ''g'']) \<and>
   getConfiguredCommands [plain_cmd ''d'']
     (Some (workspace_and_global (Some NonArrayValue) (Some (ArrayValue [plain_cmd ''g''])))) =
     [plain_cmd ''d'']"
  by (simp add: workspace_and_global_def getConfiguredCommands_def candidates_def)

section \<open>The default bundle\<close>

lemma isCommandConfig_iff:
  "isCommandConfig x \<longleftrightarrow>
     (\<exists>props l t. x = JObject props \<and> map_of props (str ''label'') = Some (JString l) \<and>
        map_of props (str ''insertText'') = Some (JString t))"
proof (cases x)
  case (JObject props)
  have ts: "typeofString v \<longleftrightarrow> (\<exists>s. v = Some (JString s))" for v :: "'a Json option"
    by (cases v rule: typeofString.cases) simp_all
  from JObject show ?thesis by (simp add: isCommandConfig_def ts)
qed (simp_all add: isCommandConfig_def)

text \<open>
  C8, as the code has it. The loader returns in every case. When reading or parsing
  throws it logs one line and returns the empty list; when the parsed value is not an
  array it returns the empty list and logs nothing; when it is an array it returns,
  in order, the elements that are objects with a string \<open>label\<close> and a string
  \<open>insertText\<close>, and drops the others without logging.
\<close>

theorem load_defaults:
  "loadDefaultCommands (ReadThrows :: 'n Bundle) = ([LOAD_FAILED], []) \<and>
   loadDefaultCommands (ParseThrows :: 'n Bundle) = ([LOAD_FAILED], []) \<and>
   ((\<forall>xs. (v :: 'n Json) \<noteq> JArray xs) \<longrightarrow> loadDefaultCommands (Parsed v) = ([], [])) \<and>
   loadDefaultCommands (Parsed (JArray xs)) = ([], filter isCommandConfig (xs :: 'n Json list)) \<and>
   (isCommandConfig (x :: 'n Json) \<longleftrightarrow>
      (\<exists>props l t. x = JObject props \<and> map_of props (str ''label'') = Some (JString l) \<and>
         map_of props (str ''insertText'') = Some (JString t)))"
proof -
  have "(\<forall>xs. v \<noteq> JArray xs) \<longrightarrow> loadDefaultCommands (Parsed v) = ([], [])"
    by (cases v) (simp_all add: loadDefaultCommands_def)
  then show ?thesis
    using isCommandConfig_iff[of x] by (simp add: loadDefaultCommands_def)
qed

theorem load_defaults_witness:
  "loadDefaultCommands (Parsed (JArray
      [JObject [(str ''label'', JString (str ''a'')), (str ''insertText'', JString (str ''b''))],
       JObject [(str ''label'', JString (str ''a''))],
       JNull,
       JObject [(str ''label'', JNumber (1::nat)), (str ''insertText'', JString (str ''b''))],
       JString (str ''c''),
       JObject [(str ''insertText'', JString (str ''d'')), (str ''group'', JNumber 2),
                (str ''label'', JString (str ''e''))]])) =
     ([], [JObject [(str ''label'', JString (str ''a'')), (str ''insertText'', JString (str ''b''))],
           JObject [(str ''insertText'', JString (str ''d'')), (str ''group'', JNumber 2),
                (str ''label'', JString (str ''e''))]]) \<and>
   loadDefaultCommands (Parsed (JString (str ''x'') :: nat Json)) = ([], [])"
proof -
  note ld = load_defaults[where ?'n = nat]
  have i: "isCommandConfig y \<longleftrightarrow>
      (\<exists>props l t. y = JObject props \<and> map_of props (str ''label'') = Some (JString l) \<and>
         map_of props (str ''insertText'') = Some (JString t))" for y :: "nat Json"
    using ld[of "JNull" "[]" y] by blast
  have a: "loadDefaultCommands (Parsed (JArray ys)) = ([], filter isCommandConfig ys)" for ys :: "nat Json list"
    using ld[of "JNull" ys "JNull"] by blast
  have b: "loadDefaultCommands (Parsed (JString (str ''x'') :: nat Json)) = ([], [])"
    using ld[of "JString (str ''x'')" "[]" "JNull"] by simp
  show ?thesis
    unfolding a b by (simp add: i str_def)
qed

text \<open>A bundle holding the object \<open>{}\<close>: the empty list, and nothing logged.\<close>

theorem load_defaults_counterexample:
  "loadDefaultCommands (Parsed (JObject [] :: nat Json)) = ([], []) \<and>
   fst (loadDefaultCommands (Parsed (JObject [] :: nat Json))) \<noteq> [LOAD_FAILED]"
  by (simp add: loadDefaultCommands_def)

section \<open>Inserting a command\<close>

lemma editCallback_map:
  "editCallback text sels =
     map (\<lambda>sel. if isEmpty sel then Insert (start sel) text else Replace sel text) sels"
  by (induction sels) (simp_all add: Let_def)

text \<open>
  C9. Without an active editor the insert command shows one information notice and
  hands no edit to the host. With an active editor it hands over one batch, which
  holds for each selection, in order, the replacement of the selection by the
  payload if the selection is not empty and the insertion of the payload at the
  cursor if it is; no notice is shown.
\<close>

theorem insert_behaviour:
  "(activeTextEditor w = None \<longrightarrow>
      insert_command text w = w\<lparr>notices := notices w @ [NO_EDITOR_NOTICE]\<rparr> \<and>
      edits (insert_command text w) = edits w) \<and>
   (activeTextEditor w = Some ed \<longrightarrow>
      (\<exists>batch. insert_command text w = w\<lparr>edits := edits w @ [batch]\<rparr> \<and>
         length batch = length (selections ed) \<and>
         (\<forall>i<length (selections ed).
            batch ! i = (if isEmpty (selections ed ! i)
                         then Insert (start (selections ed ! i)) text
                         else Replace (selections ed ! i) text))) \<and>
      notices (insert_command text w) = notices w)"
proof (intro conjI impI)
  assume "activeTextEditor w = None"
  then show "insert_command text w = w\<lparr>notices := notices w @ [NO_EDITOR_NOTICE]\<rparr>"
    and "edits (insert_command text w) = edits w"
    by (simp_all add: insert_command_def)
next
  assume ed: "activeTextEditor w = Some ed"
  let ?batch = "editCallback text (selections ed)"
  have "insert_command text w = w\<lparr>edits := edits w @ [?batch]\<rparr>"
    using ed by (simp add: insert_command_def)
  moreover have "length ?batch = length (selections ed)"
    by (simp add: editCallback_map)
  moreover have "\<forall>i<length (selections ed).
            ?batch ! i = (if isEmpty (selections ed ! i)
                         then Insert (start (selections ed ! i)) text
                         else Replace (selections ed ! i) text)"
    by (simp add: editCallback_map)
  ultimately show "\<exists>batch. insert_command text w = w\<lparr>edits := edits w @ [batch]\<rparr> \<and>
         length batch = length (selections ed) \<and>
         (\<forall>i<length (selections ed).
            batch ! i = (if isEmpty (selections ed ! i)
                         then Insert (start (selections ed ! i)) text
                         else Replace (selections ed ! i) text))"
    by blast
  show "notices (insert_command text w) = notices w"
    using ed by (simp add: insert_command_def)
qed

theorem insert_behaviour_witness:
  "insert_command (str ''h();'')
     \<lparr>activeTextEditor = None, notices = [], edits = []\<rparr> =
     \<lparr>activeTextEditor = None, notices = [NO_EDITOR_NOTICE], edits = []\<rparr> \<and>
   edits (insert_command (str ''h();'')
     \<lparr>activeTextEditor = Some \<lparr>selections =
         [\<lparr>start = \<lparr>line = 0, character = 2\<rparr>, end_pos = \<lparr>line = 0, character = 2\<rparr>\<rparr>,
          \<lparr>start = \<lparr>line = 1, character = 0\<rparr>, end_pos = \<lparr>line = 1, character = 5\<rparr>\<rparr>]\<rparr>,
      notices = [], edits = []\<rparr>) =
     [[Insert \<lparr>line = 0, character = 2\<rparr> (str ''h();''),
       Replace \<lparr>start = \<lparr>line = 1, character = 0\<rparr>, end_pos = \<lparr>line = 1, character = 5\<rparr>\<rparr> (str ''h();'')]]"
proof -
  let ?w0 = "\<lparr>activeTextEditor = None, notices = [], edits = []\<rparr>"
  let ?ed = "\<lparr>selections =
         [\<lparr>start = \<lparr>line = 0, character = 2\<rparr>, end_pos = \<lparr>line = 0, character = 2\<rparr>\<rparr>,
          \<lparr>start = \<lparr>line = 1, character = 0\<rparr>, end_pos = \<lparr>line = 1, character = 5\<rparr>\<rparr>]\<rparr>"
  let ?w1 = "\<lparr>activeTextEditor = Some ?ed, notices = [], edits = []\<rparr>"
  have n: "activeTextEditor ?w0 = None" by simp
  have s: "activeTextEditor ?w1 = Some ?ed" by simp
  from insert_behaviour[of ?w0 "str ''h();''" undefined] n
  have a: "insert_command (str ''h();'') ?w0 = ?w0\<lparr>notices := notices ?w0 @ [NO_EDITOR_NOTICE]\<rparr>"
    by blast
  from insert_behaviour[of ?w1 "str ''h();''" ?ed] s
  obtain batch where b: "insert_command (str ''h();'') ?w1 = ?w1\<lparr>edits := edits ?w1 @ [batch]\<rparr>"
    "length batch = length (selections ?ed)"
    "\<forall>i<length (selections ?ed).
            batch ! i = (if isEmpty (selections ?ed ! i)
                         then Insert (start (selections ?ed ! i)) (str ''h();'')
                         else Replace (selections ?ed ! i) (str ''h();''))"
    by blast
  from b(2) have l: "length batch = 2" by simp
  from b(3) have "batch ! 0 = Insert \<lparr>line = 0, character = 2\<rparr> (str ''h();'')"
    "batch ! 1 = Replace \<lparr>start = \<lparr>line = 1, character = 0\<rparr>, end_pos = \<lparr>line = 1, character = 5\<rparr>\<rparr> (str ''h();'')"
    by (simp_all add: isEmpty_def)
  with l have "batch = [Insert \<lparr>line = 0, character = 2\<rparr> (str ''h();''),
       Replace \<lparr>start = \<lparr>line = 1, character = 0\<rparr>, end_pos = \<lparr>line = 1, character = 5\<rparr>\<rparr> (str ''h();'')]"
    by (cases batch; simp; cases "tl batch"; simp; force)
  with a b(1) show ?thesis by simp
qed

end
